theory Spec2Isabelle
  imports Main "HOL-Library.Char_ord" "HOL-Library.List_Lexorder"
begin

section \<open>Python strings and the Unicode tables\<close>

text \<open>
  A Python \<open>str\<close> is a sequence of code points and \<open>len\<close> counts code points, so the
  status text of the estimator is a list of natural numbers. ASCII text is written with
  \<open>cps\<close>, which maps an Isabelle string to its code points.
\<close>

type_synonym codepoint = nat
type_synonym pystr = "codepoint list"

definition cps :: "string \<Rightarrow> pystr" where
  "cps s = map of_char s"

text \<open>
  \<open>re\<close> consults the interpreter's Unicode database for the class \<open>\w\<close> and for
  case-insensitive comparison. The ASCII part of both is written out below; for code points
  from 128 on the database is a parameter of the model: \<open>uni_alnum c\<close> says that \<open>c\<close> is
  alphanumeric, \<open>uni_ci_eq p c\<close> that the text character \<open>c\<close> equals the pattern character
  \<open>p\<close> when case is ignored.
\<close>

record unicode_db =
  uni_alnum :: "codepoint \<Rightarrow> bool"
  uni_ci_eq :: "codepoint \<Rightarrow> codepoint \<Rightarrow> bool"

definition ascii_db :: unicode_db where
  "ascii_db = \<lparr>uni_alnum = (\<lambda>c. False), uni_ci_eq = (\<lambda>p c. False)\<rparr>"

definition ascii_lower :: "codepoint \<Rightarrow> codepoint" where
  "ascii_lower c = (if 65 \<le> c \<and> c \<le> 90 then c + 32 else c)"

definition is_word :: "unicode_db \<Rightarrow> codepoint \<Rightarrow> bool" where
  "is_word U c =
     (if c < 128
      then (48 \<le> c \<and> c \<le> 57) \<or> (65 \<le> c \<and> c \<le> 90) \<or> c = 95 \<or> (97 \<le> c \<and> c \<le> 122)
      else uni_alnum U c)"

text \<open>
  The pattern is compiled with \<open>(?i)\<close>, so every literal and every class item is compared
  ignoring case. The literals of the pattern are lower-case or uncased, and none of them is
  one of the letters that Unicode folds onto an ASCII letter.
\<close>

definition ci_eq :: "unicode_db \<Rightarrow> codepoint \<Rightarrow> codepoint \<Rightarrow> bool" where
  "ci_eq U p c =
     (if c < 128 then ascii_lower c = ascii_lower p else c = p \<or> uni_ci_eq U p c)"

section \<open>Regular expressions as \<open>re\<close> matches them\<close>

datatype cc = CChar codepoint | CRange codepoint codepoint | CWord

fun cc_match :: "unicode_db \<Rightarrow> cc \<Rightarrow> codepoint \<Rightarrow> bool" where
  "cc_match U (CChar p) c = ci_eq U p c"
| "cc_match U (CRange lo hi) c =
     (if c < 128
      then (lo \<le> c \<and> c \<le> hi)
         \<or> (65 \<le> c \<and> c \<le> 90 \<and> lo \<le> c + 32 \<and> c + 32 \<le> hi)
         \<or> (97 \<le> c \<and> c \<le> 122 \<and> lo \<le> c - 32 \<and> c - 32 \<le> hi)
      else (lo \<le> c \<and> c \<le> hi) \<or> list_ex (\<lambda>p. uni_ci_eq U p c) [lo..<Suc hi])"
| "cc_match U CWord c = is_word U c"

text \<open>
  The constructs that \<open>URL_REGEXP\<close> uses: a literal string, \<open>.\<close> (any character but a
  newline), a character class, \<open>\b\<close>, concatenation, alternation and the greedy star.
  \<open>r?\<close> is \<open>r|\<epsilon>\<close> and \<open>r+\<close> is \<open>rr*\<close>, both greedy as in Python.
\<close>

datatype regex =
    Lit pystr
  | AnyChar
  | Cls "cc list"
  | WordB
  | Seq regex regex
  | Alt regex regex
  | Star regex

definition Opt :: "regex \<Rightarrow> regex" where
  "Opt r = Alt r (Lit [])"

definition Plus :: "regex \<Rightarrow> regex" where
  "Plus r = Seq r (Star r)"

fun alts :: "regex list \<Rightarrow> regex" where
  "alts [] = Cls []"
| "alts [r] = r"
| "alts (r # rs) = Alt r (alts rs)"

text \<open>
  A cursor is a position in the subject: the character before it (for \<open>\b\<close>) and the
  text from it on.
\<close>

type_synonym cursor = "codepoint option \<times> pystr"

fun match_lit :: "unicode_db \<Rightarrow> pystr \<Rightarrow> cursor \<Rightarrow> cursor option" where
  "match_lit U [] cur = Some cur"
| "match_lit U (p # ps) (prev, []) = None"
| "match_lit U (p # ps) (prev, c # cs) =
     (if ci_eq U p c then match_lit U ps (Some c, cs) else None)"

definition at_boundary :: "unicode_db \<Rightarrow> codepoint option \<Rightarrow> pystr \<Rightarrow> bool" where
  "at_boundary U prev rest =
     ((case prev of None \<Rightarrow> False | Some c \<Rightarrow> is_word U c)
      \<noteq> (case rest of [] \<Rightarrow> False | c # _ \<Rightarrow> is_word U c))"

text \<open>
  The matcher is the backtracking search of \<open>re\<close>: it works off a stack of what is still to
  be matched and returns the cursor after the first complete match in priority order.
  An alternation tries its left branch with the whole remaining stack before its right
  branch; a star tries one more iteration before it tries to leave the loop. \<open>Guard n\<close> is
  the engine's check that an iteration of a star has consumed input: it lets the search
  pass only when fewer than \<open>n\<close> characters remain.
\<close>

datatype frame = M regex | Guard nat

fun cost :: "regex \<Rightarrow> nat \<Rightarrow> nat" where
  "cost (Lit p) m = 1"
| "cost AnyChar m = 1"
| "cost (Cls items) m = 1"
| "cost WordB m = 1"
| "cost (Seq a b) m = 1 + cost a m + cost b m"
| "cost (Alt a b) m = 1 + cost a m + cost b m"
| "cost (Star a) m = (m + 1) * (cost a m + 2)"

fun stack_cost :: "frame list \<Rightarrow> nat \<Rightarrow> nat" where
  "stack_cost [] m = 0"
| "stack_cost (M r # fs) m = cost r m + stack_cost fs m"
| "stack_cost (Guard n # fs) m = (if n = 0 then 0 else 1 + stack_cost fs (min m (n - 1)))"

lemma cost_mono: "m \<le> m' \<Longrightarrow> cost r m \<le> cost r m'"
  by (induction r) (auto intro!: add_mono mult_le_mono)

lemma stack_cost_mono: "m \<le> m' \<Longrightarrow> stack_cost fs m \<le> stack_cost fs m'"
proof (induction fs arbitrary: m m')
  case Nil
  then show ?case by simp
next
  case (Cons f fs)
  show ?case
  proof (cases f)
    case (M r)
    with Cons show ?thesis by (auto intro!: add_mono cost_mono)
  next
    case (Guard n)
    have "min m (n - 1) \<le> min m' (n - 1)" using Cons.prems by simp
    with Cons.IH Guard show ?thesis by auto
  qed
qed

lemma match_lit_length:
  "match_lit U p cur = Some cur' \<Longrightarrow> length (snd cur') \<le> length (snd cur)"
proof (induction U p cur rule: match_lit.induct)
  case (1 U cur)
  then show ?case by simp
next
  case (2 U p ps prev)
  then show ?case by simp
next
  case (3 U p ps prev c cs)
  then show ?case by (auto split: if_splits)
qed

lemma star_cost_step:
  "stack_cost (M a # Guard m # M (Star a) # fs) m < stack_cost (M (Star a) # fs) m"
proof (cases m)
  case 0
  then show ?thesis by simp
next
  case (Suc k)
  have 1: "cost a k \<le> cost a (Suc k)" by (rule cost_mono) simp
  have 2: "stack_cost fs k \<le> stack_cost fs (Suc k)" by (rule stack_cost_mono) simp
  have 3: "(k + 1) * (cost a k + 2) \<le> (k + 1) * (cost a (Suc k) + 2)"
    using 1 by (intro mult_le_mono) auto
  show ?thesis using Suc 2 3 by simp
qed

function bt :: "unicode_db \<Rightarrow> frame list \<Rightarrow> cursor \<Rightarrow> cursor option" where
  "bt U [] cur = Some cur"
| "bt U (Guard n # fs) (prev, rest) =
     (if length rest < n then bt U fs (prev, rest) else None)"
| "bt U (M (Lit p) # fs) cur =
     (case match_lit U p cur of None \<Rightarrow> None | Some cur' \<Rightarrow> bt U fs cur')"
| "bt U (M AnyChar # fs) (prev, rest) =
     (case rest of [] \<Rightarrow> None
      | c # cs \<Rightarrow> if c = 10 then None else bt U fs (Some c, cs))"
| "bt U (M (Cls items) # fs) (prev, rest) =
     (case rest of [] \<Rightarrow> None
      | c # cs \<Rightarrow> if list_ex (\<lambda>i. cc_match U i c) items then bt U fs (Some c, cs) else None)"
| "bt U (M WordB # fs) (prev, rest) =
     (if at_boundary U prev rest then bt U fs (prev, rest) else None)"
| "bt U (M (Seq a b) # fs) cur = bt U (M a # M b # fs) cur"
| "bt U (M (Alt a b) # fs) cur =
     (case bt U (M a # fs) cur of Some e \<Rightarrow> Some e | None \<Rightarrow> bt U (M b # fs) cur)"
| "bt U (M (Star a) # fs) (prev, rest) =
     (case bt U (M a # Guard (length rest) # M (Star a) # fs) (prev, rest) of
        Some e \<Rightarrow> Some e
      | None \<Rightarrow> bt U fs (prev, rest))"
  by pat_completeness auto
termination
proof (relation "measure (\<lambda>(U, fs, cur). stack_cost fs (length (snd cur)))", goal_cases)
  case 1
  then show ?case by simp
next
  case (2 n fs prev rest)
  then show ?case by simp
next
  case (3 U p fs cur cur')
  then show ?case
    using match_lit_length[of U p cur cur']
      stack_cost_mono[of "length (snd cur')" "length (snd cur)" fs]
    by simp
next
  case (4 U fs prev rest c cs)
  then show ?case using stack_cost_mono[of "length cs" "Suc (length cs)" fs] by simp
next
  case (5 U items fs prev rest c cs)
  then show ?case using stack_cost_mono[of "length cs" "Suc (length cs)" fs] by simp
next
  case (6 U fs prev rest)
  then show ?case by simp
next
  case (7 U a b fs cur)
  then show ?case by simp
next
  case (8 U a b fs cur)
  then show ?case by simp
next
  case (9 U a b fs cur)
  then show ?case by simp
next
  case (10 U a fs prev rest)
  then show ?case using star_cost_step[of a "length rest" fs]
    by (simp del: stack_cost.simps cost.simps)
next
  case (11 U a fs prev rest)
  then show ?case by simp
qed

text \<open>
  \<open>re.findall\<close> scans the subject from left to right: at each position it takes the match
  the search finds there, resumes after it, and moves on by one character where there is
  none. The pattern has one group, which spans the whole pattern, so the strings returned
  are the matched substrings. (An empty match yields the empty string and the scan moves
  on by one character.)
\<close>

function scan :: "unicode_db \<Rightarrow> regex \<Rightarrow> codepoint option \<Rightarrow> pystr \<Rightarrow> pystr list" where
  "scan U r prev rest =
     (case bt U [M r] (prev, rest) of
        Some (prev', rest') \<Rightarrow>
          if length rest' < length rest
          then take (length rest - length rest') rest # scan U r prev' rest'
          else (case rest of [] \<Rightarrow> [[]] | c # cs \<Rightarrow> [] # scan U r (Some c) cs)
      | None \<Rightarrow> (case rest of [] \<Rightarrow> [] | c # cs \<Rightarrow> scan U r (Some c) cs))"
  by pat_completeness auto
termination
  by (relation "measure (\<lambda>(U, r, prev, rest). length rest)") auto

declare scan.simps [simp del]

definition findall :: "unicode_db \<Rightarrow> regex \<Rightarrow> pystr \<Rightarrow> pystr list" where
  "findall U r s = scan U r None s"

text \<open>
  \<open>re.search\<close>, as a yes/no question: the pattern matches at the cursor or at some later
  position of the subject.
\<close>

fun matches_somewhere :: "unicode_db \<Rightarrow> regex \<Rightarrow> codepoint option \<Rightarrow> pystr \<Rightarrow> bool" where
  "matches_somewhere U r prev [] =
     (case bt U [M r] (prev, []) of Some e \<Rightarrow> True | None \<Rightarrow> False)"
| "matches_somewhere U r prev (c # cs) =
     (case bt U [M r] (prev, c # cs) of
        Some e \<Rightarrow> True
      | None \<Rightarrow> matches_somewhere U r (Some c) cs)"

definition TLDS_1 :: "pystr list" where
  "TLDS_1 = map cps
    [
     ''ac'', ''ad'', ''ae'', ''af'', ''ag'', ''ai'', ''al'', ''am'', ''an'', ''ao'', ''aq'',
     ''ar'', ''as'', ''at'', ''au'', ''aw'', ''ax'', ''az'', ''ba'', ''bb'', ''bd'', ''be'',
     ''bf'', ''bg'', ''bh'', ''bi'', ''bj'', ''bl'', ''bm'', ''bn'', ''bo'', ''bq'', ''br'',
     ''bs'', ''bt'', ''bv'', ''bw'', ''by'', ''bz'', ''ca'', ''cc'', ''cd'', ''cf'', ''cg'',
     ''ch'', ''ci'', ''ck'', ''cl'', ''cm'', ''cn'', ''co'', ''cr'', ''cu'', ''cv'', ''cw'',
     ''cx'', ''cy'', ''cz'', ''de'', ''dj'', ''dk'', ''dm'', ''do'', ''dz'', ''ec'', ''ee'',
     ''eg'', ''eh'', ''er'', ''es'', ''et'', ''eu'', ''fi'', ''fj'', ''fk'', ''fm'', ''fo'',
     ''fr'', ''ga'', ''gb'', ''gd'', ''ge'', ''gf'', ''gg'', ''gh'', ''gi'', ''gl'', ''gm'',
     ''gn'', ''gp'', ''gq'', ''gr'', ''gs'', ''gt'', ''gu'', ''gw'', ''gy'', ''hk'', ''hm'',
     ''hn'', ''hr'', ''ht'', ''hu'', ''id'', ''ie'', ''il'', ''im'', ''in'', ''io'', ''iq'',
     ''ir'', ''is'', ''it'', ''je'', ''jm'', ''jo'', ''jp'', ''ke'', ''kg'', ''kh'', ''ki'',
     ''km'', ''kn'', ''kp'', ''kr'', ''kw'', ''ky'', ''kz'', ''la'', ''lb'', ''lc'', ''li'',
     ''lk'', ''lr'', ''ls'', ''lt'', ''lu'', ''lv'', ''ly'', ''ma'', ''mc'', ''md'', ''me'',
     ''mf'', ''mg'', ''mh'', ''mk'', ''ml'', ''mm'', ''mn'', ''mo'', ''mp'', ''mq'', ''mr'',
     ''ms'', ''mt'', ''mu'', ''mv'', ''mw'', ''mx'', ''my'', ''mz'', ''na'', ''nc'', ''ne'',
     ''nf'', ''ng'', ''ni'', ''nl'', ''no'', ''np'', ''nr'', ''nu'', ''nz'', ''om'', ''pa'',
     ''pe'', ''pf'', ''pg'', ''ph'', ''pk'', ''pl'', ''pm'', ''pn'', ''pr'', ''ps'', ''pt'',
     ''pw'', ''py'', ''qa'', ''re'', ''ro'', ''rs'', ''ru'', ''rw'', ''sa'', ''sb'', ''sc'',
     ''sd'', ''se'', ''sg'', ''sh'', ''si'', ''sj'', ''sk'', ''sl'', ''sm'', ''sn'', ''so'',
     ''sr'', ''ss'', ''st'', ''su'', ''sv'', ''sx'', ''sy'', ''sz'', ''tc'', ''td'', ''tf'',
     ''tg'', ''th'', ''tj'', ''tk'', ''tl'', ''tm'', ''tn'', ''to'', ''tp'', ''tr'', ''tt'',
     ''tv'', ''tw'', ''tz'', ''ua'', ''ug'', ''uk'', ''um'', ''us'', ''uy'', ''uz'', ''va'',
     ''vc'', ''ve'', ''vg'', ''vi'', ''vn'', ''vu'', ''wf'', ''ws'', ''ye'', ''yt'', ''za'',
     ''zm'', ''zw''
    ]"

definition TLDS_2 :: "pystr list" where
  "TLDS_2 =
    [
     [949, 955], [1073, 1077, 1083], [1084, 1082, 1076], [1084, 1086, 1085], [1088, 1092],
     [1089, 1088, 1073], [1091, 1082, 1088], [1179, 1072, 1079], [1392, 1377, 1397],
     [1575, 1604, 1575, 1585, 1583, 1606], [1575, 1604, 1580, 1586, 1575, 1574, 1585],
     [1575, 1604, 1587, 1593, 1608, 1583, 1610, 1577], [1575, 1604, 1605, 1594, 1585, 1576],
     [1575, 1605, 1575, 1585, 1575, 1578], [1575, 1740, 1585, 1575, 1606],
     [1576, 1726, 1575, 1585, 1578], [1578, 1608, 1606, 1587],
     [1587, 1608, 1583, 1575, 1606], [1587, 1608, 1585, 1610, 1577],
     [1593, 1585, 1575, 1602], [1593, 1605, 1575, 1606],
     [1601, 1604, 1587, 1591, 1610, 1606], [1602, 1591, 1585], [1605, 1589, 1585],
     [1605, 1604, 1610, 1587, 1610, 1575], [1662, 1575, 1705, 1587, 1578, 1575, 1606],
     [2349, 2366, 2352, 2340], [2476, 2494, 2434, 2482, 2494], [2477, 2494, 2480, 2468],
     [2605, 2622, 2608, 2596], [2733, 2750, 2736, 2724],
     [2951, 2984, 3021, 2980, 3007, 2991, 3006], [2951, 2994, 2969, 3021, 2965, 3016],
     [2970, 3007, 2969, 3021, 2965, 2986, 3021, 2986, 3010, 2992, 3021],
     [3117, 3134, 3120, 3108, 3149], [3517, 3458, 3482, 3535], [3652, 3607, 3618],
     [4306, 4308], [20013, 22269], [20013, 22283], [21488, 28286], [21488, 28771],
     [26032, 21152, 22369], [28595, 38272], [39321, 28207], [54620, 44397]
    ]"

definition TLDS_3 :: "pystr list" where
  "TLDS_3 = map cps
    [
     ''neric:'', ''abb'', ''abbott'', ''abogado'', ''academy'', ''accenture'',
     ''accountant'', ''accountants'', ''aco'', ''active'', ''actor'', ''ads'', ''adult'',
     ''aeg'', ''aero'', ''afl'', ''agency'', ''aig'', ''airforce'', ''airtel'',
     ''allfinanz'', ''alsace'', ''amsterdam'', ''android'', ''apartments'', ''app'',
     ''aquarelle'', ''archi'', ''army'', ''arpa'', ''asia'', ''associates'', ''attorney'',
     ''auction'', ''audio'', ''auto'', ''autos'', ''axa'', ''azure'', ''band'', ''bank'',
     ''bar'', ''barcelona'', ''barclaycard'', ''barclays'', ''bargains'', ''bauhaus'',
     ''bayern'', ''bbc'', ''bbva'', ''bcn'', ''beer'', ''bentley'', ''berlin'', ''best'',
     ''bet'', ''bharti'', ''bible'', ''bid'', ''bike'', ''bing'', ''bingo'', ''bio'',
     ''biz'', ''black'', ''blackfriday'', ''bloomberg'', ''blue'', ''bmw'', ''bnl'',
     ''bnpparibas'', ''boats'', ''bond'', ''boo'', ''boots'', ''boutique'', ''bradesco'',
     ''bridgestone'', ''broker'', ''brother'', ''brussels'', ''budapest'', ''build'',
     ''builders'', ''business'', ''buzz'', ''bzh'', ''cab'', ''cafe'', ''cal'', ''camera'',
     ''camp'', ''cancerresearch'', ''canon'', ''capetown'', ''capital'', ''caravan'',
     ''cards'', ''care'', ''career'', ''careers'', ''cars'', ''cartier'', ''casa'',
     ''cash'', ''casino'', ''cat'', ''catering'', ''cba'', ''cbn'', ''ceb'', ''center'',
     ''ceo'', ''cern'', ''cfa'', ''cfd'', ''chanel'', ''channel'', ''chat'', ''cheap'',
     ''chloe'', ''christmas'', ''chrome'', ''church'', ''cisco'', ''citic'', ''city'',
     ''claims'', ''cleaning'', ''click'', ''clinic'', ''clothing'', ''cloud'', ''club'',
     ''coach'', ''codes'', ''coffee'', ''college'', ''cologne'', ''com'', ''commbank'',
     ''community'', ''company'', ''computer'', ''condos'', ''construction'', ''consulting'',
     ''contractors'', ''cooking'', ''cool'', ''coop'', ''corsica'', ''country'',
     ''coupons'', ''courses'', ''credit'', ''creditcard'', ''cricket'', ''crown'', ''crs'',
     ''cruises'', ''cuisinella'', ''cymru'', ''cyou'', ''dabur'', ''dad'', ''dance'',
     ''date'', ''dating'', ''datsun'', ''day'', ''dclk'', ''deals'', ''degree'',
     ''delivery'', ''delta'', ''democrat'', ''dental'', ''dentist'', ''desi'', ''design'',
     ''dev'', ''diamonds'', ''diet'', ''digital'', ''direct'', ''directory'', ''discount'',
     ''dnp'', ''docs'', ''dog'', ''doha'', ''domains'', ''doosan'', ''download'', ''drive'',
     ''durban'', ''dvag'', ''earth'', ''eat'', ''edu'', ''education'', ''email'',
     ''emerck'', ''energy'', ''engineer'', ''engineering'', ''enterprises'', ''epson'',
     ''equipment'', ''erni'', ''esq'', ''estate'', ''eurovision'', ''eus'', ''events'',
     ''everbank'', ''exchange'', ''expert'', ''exposed'', ''express'', ''fage'', ''fail'',
     ''faith'', ''family'', ''fan'', ''fans'', ''farm'', ''fashion'', ''feedback'',
     ''film'', ''finance'', ''financial'', ''firmdale'', ''fish'', ''fishing'', ''fit'',
     ''fitness'', ''flights'', ''florist'', ''flowers'', ''flsmidth'', ''fly'', ''foo'',
     ''football'', ''forex'', ''forsale'', ''forum'', ''foundation'', ''frl'', ''frogans'',
     ''fund'', ''furniture'', ''futbol'', ''fyi'', ''gal'', ''gallery'', ''game'',
     ''garden'', ''gbiz'', ''gdn'', ''gent'', ''genting'', ''ggee'', ''gift'', ''gifts'',
     ''gives'', ''giving'', ''glass'', ''gle'', ''global'', ''globo'', ''gmail'', ''gmo'',
     ''gmx'', ''gold'', ''goldpoint'', ''golf'', ''goo'', ''goog'', ''google'', ''gop'',
     ''gov'', ''graphics'', ''gratis'', ''green'', ''gripe'', ''group'', ''guge'',
     ''guide'', ''guitars'', ''guru'', ''hamburg'', ''hangout'', ''haus'', ''healthcare'',
     ''help'', ''here'', ''hermes'', ''hiphop'', ''hitachi'', ''hiv'', ''hockey'',
     ''holdings'', ''holiday'', ''homedepot'', ''homes'', ''honda'', ''horse'', ''host'',
     ''hosting'', ''hoteles'', ''hotmail'', ''house'', ''how'', ''hsbc'', ''ibm'', ''icbc'',
     ''ice'', ''icu'', ''ifm'', ''iinet'', ''immo'', ''immobilien'', ''industries'',
     ''infiniti'', ''info'', ''ing'', ''ink'', ''institute'', ''insure'', ''int'',
     ''international'', ''investments'', ''ipiranga'', ''irish'', ''ist'', ''istanbul'',
     ''itau'', ''iwc'', ''java'', ''jcb'', ''jetzt'', ''jewelry'', ''jlc'', ''jll'',
     ''jobs'', ''joburg'', ''jprs'', ''juegos'', ''kaufen'', ''kddi'', ''kim'', ''kitchen'',
     ''kiwi'', ''koeln'', ''komatsu'', ''krd'', ''kred'', ''kyoto'', ''lacaixa'',
     ''lancaster'', ''land'', ''lasalle'', ''lat'', ''latrobe'', ''law'', ''lawyer'',
     ''lds'', ''lease'', ''leclerc'', ''legal'', ''lexus'', ''lgbt'', ''liaison'', ''lidl'',
     ''life'', ''lighting'', ''limited'', ''limo'', ''link'', ''live'', ''lixil'', ''loan'',
     ''loans'', ''lol'', ''london'', ''lotte'', ''lotto'', ''love'', ''ltda'', ''lupin'',
     ''luxe'', ''luxury'', ''madrid'', ''maif'', ''maison'', ''man'', ''management'',
     ''mango'', ''market'', ''marketing'', ''markets'', ''marriott'', ''mba'', ''media'',
     ''meet'', ''melbourne'', ''meme'', ''memorial'', ''men'', ''menu'', ''miami'',
     ''microsoft'', ''mil'', ''mini'', ''mma'', ''mobi'', ''moda'', ''moe'', ''mom'',
     ''monash'', ''money'', ''montblanc'', ''mormon'', ''mortgage'', ''moscow'',
     ''motorcycles'', ''mov'', ''movie'', ''movistar'', ''mtn'', ''mtpc'', ''museum'',
     ''nadex'', ''nagoya'', ''name'', ''navy'', ''nec'', ''net'', ''netbank'', ''network'',
     ''neustar'', ''new'', ''news'', ''nexus'', ''ngo'', ''nhk'', ''nico'', ''ninja'',
     ''nissan'', ''nokia'', ''nra'', ''nrw'', ''ntt'', ''nyc'', ''office'', ''okinawa'',
     ''omega'', ''one'', ''ong'', ''onl'', ''online'', ''ooo'', ''oracle'', ''orange'',
     ''org'', ''organic'', ''osaka'', ''otsuka'', ''ovh'', ''page'', ''panerai'', ''paris'',
     ''partners'', ''parts'', ''party'', ''pet'', ''pharmacy'', ''philips'', ''photo'',
     ''photography'', ''photos'', ''physio'', ''piaget'', ''pics'', ''pictet'',
     ''pictures'', ''pink'', ''pizza'', ''place'', ''play'', ''plumbing'', ''plus'',
     ''pohl'', ''poker'', ''porn'', ''post'', ''praxi'', ''press'', ''pro'', ''prod'',
     ''productions'', ''prof'', ''properties'', ''property'', ''pub'', ''qpon'', ''quebec'',
     ''racing'', ''realtor'', ''realty'', ''recipes'', ''red'', ''redstone'', ''rehab'',
     ''reise'', ''reisen'', ''reit'', ''ren'', ''rent'', ''rentals'', ''repair'',
     ''report'', ''republican'', ''rest'', ''restaurant'', ''review'', ''reviews'',
     ''rich'', ''ricoh'', ''rio'', ''rip'', ''rocks'', ''rodeo'', ''rsvp'', ''ruhr'',
     ''run'', ''ryukyu'', ''saarland'', ''sakura'', ''sale'', ''samsung'', ''sandvik'',
     ''sandvikcoromant'', ''sanofi'', ''sap'', ''sarl'', ''saxo'', ''sca'', ''scb'',
     ''schmidt'', ''scholarships'', ''school'', ''schule'', ''schwarz'', ''science'',
     ''scor'', ''scot'', ''seat'', ''seek'', ''sener'', ''services'', ''sew'', ''sex'',
     ''sexy'', ''shiksha'', ''shoes'', ''show'', ''shriram'', ''singles'', ''site'',
     ''ski'', ''sky'', ''skype'', ''sncf'', ''soccer'', ''social'', ''software'', ''sohu'',
     ''solar'', ''solutions'', ''sony'', ''soy'', ''space'', ''spiegel'', ''spreadbetting'',
     ''srl'', ''starhub'', ''statoil'', ''studio'', ''study'', ''style'', ''sucks'',
     ''supplies'', ''supply'', ''support'', ''surf'', ''surgery'', ''suzuki'', ''swatch'',
     ''swiss'', ''sydney'', ''systems'', ''taipei'', ''tatamotors'', ''tatar'', ''tattoo'',
     ''tax'', ''taxi'', ''team'', ''tech'', ''technology'', ''tel'', ''telefonica'',
     ''temasek'', ''tennis'', ''thd'', ''theater'', ''tickets'', ''tienda'', ''tips'',
     ''tires'', ''tirol'', ''today'', ''tokyo'', ''tools'', ''top'', ''toray'', ''toshiba'',
     ''tours'', ''town'', ''toyota'', ''toys'', ''trade'', ''trading'', ''training'',
     ''travel'', ''trust'', ''tui'', ''ubs'', ''university'', ''uno'', ''uol'',
     ''vacations'', ''vegas'', ''ventures''
    ]"

definition TLDS_4 :: "pystr list" where
  "TLDS_4 =
    [
     [118, 101, 114, 109, 246, 103, 101, 110, 115, 98, 101, 114, 97, 116, 101, 114],
     [118, 101, 114, 109, 246, 103, 101, 110, 115, 98, 101, 114, 97, 116, 117, 110, 103]
    ]"

definition TLDS_5 :: "pystr list" where
  "TLDS_5 = map cps
    [
     ''versicherung'', ''vet'', ''viajes'', ''video'', ''villas'', ''vin'', ''vision'',
     ''vista'', ''vistaprint'', ''vlaanderen'', ''vodka'', ''vote'', ''voting'', ''voto'',
     ''voyage'', ''wales'', ''walter'', ''wang'', ''watch'', ''webcam'', ''website'',
     ''wed'', ''wedding'', ''weir'', ''whoswho'', ''wien'', ''wiki'', ''williamhill'',
     ''win'', ''windows'', ''wine'', ''wme'', ''work'', ''works'', ''world'', ''wtc'',
     ''wtf'', ''xbox'', ''xerox'', ''xin'', ''xperia'', ''xxx'', ''xyz'', ''yachts'',
     ''yandex'', ''yodobashi'', ''yoga'', ''yokohama'', ''youtube'', ''zip'', ''zone'',
     ''zuerich''
    ]"

definition TLDS_6 :: "pystr list" where
  "TLDS_6 =
    [
     [1076, 1077, 1090, 1080], [1082, 1086, 1084], [1084, 1086, 1089, 1082, 1074, 1072],
     [1086, 1085, 1083, 1072, 1081, 1085], [1086, 1088, 1075], [1088, 1091, 1089],
     [1089, 1072, 1081, 1090], [1511, 1493, 1501], [1576, 1575, 1586, 1575, 1585],
     [1588, 1576, 1603, 1577], [1603, 1608, 1605], [1605, 1608, 1602, 1593],
     [2325, 2377, 2350], [2344, 2375, 2335], [2360, 2306, 2327, 2336, 2344],
     [3588, 3629, 3617], [12415, 12435, 12394], [12464, 12540, 12464, 12523],
     [12467, 12512], [19990, 30028], [20013, 20449], [20013, 25991, 32593], [20225, 19994],
     [20315, 23665], [20449, 24687], [20581, 24247], [20843, 21350], [20844, 21496],
     [20844, 30410], [21830, 22478], [21830, 24215], [21830, 26631], [22312, 32447],
     [22823, 25343], [23089, 20048], [24037, 34892], [24191, 19996], [24904, 21892],
     [25105, 29233, 20320], [25163, 26426], [25919, 21153], [25919, 24220], [26032, 38395],
     [26102, 23578], [26426, 26500], [28129, 39532, 38177], [28216, 25103], [28857, 30475],
     [31227, 21160], [32452, 32455, 26426, 26500], [32593, 22336], [32593, 24215],
     [32593, 32476], [35895, 27468], [38598, 22242], [39134, 21033, 28006], [39184, 21381],
     [45815, 45367], [45815, 52980], [49340, 49457]
    ]"

definition TLDS_7 :: "pystr list" where
  "TLDS_7 = map cps
    [
     ''onion''
    ]"

definition TLDS :: "pystr list" where
  "TLDS = TLDS_1 @ TLDS_2 @ TLDS_3 @ TLDS_4 @ TLDS_5 @ TLDS_6 @ TLDS_7"

section \<open>The URL pattern and the status-length estimator\<close>

text \<open>
  \<open>TLDS\<close> above is the list of the source in its order, which is the order of the
  alternation (the entry \<open>neric:\<close> included); labels outside ASCII are given by their code
  points. \<open>URL_REGEXP\<close> is the pattern
  \<^verbatim>\<open>(?i)((?:https?://|www\\.)*(?:[\w+-_]+[.])(?:ac\b|...|onion\b|(?:[0-9]|[1-9][0-9]|1[0-9][0-9]|2[0-4][0-9]|25[0-5]))+(?:[:\w+\/]?[a-z0-9!\*\'\(\);:&=\+\$/%#\[\]\-_\.,~?])*)\<close>
  piece by piece. In the raw string the second alternative of the prefix is \<open>www\<close>, a
  backslash and any character; in the class \<open>[\w+-_]\<close> the items are \<open>\w\<close> and the
  range from \<open>+\<close> (43) to \<open>_\<close> (95), which contains the dot, the slash and the colon.
\<close>

definition octet :: regex where
  "octet =
     alts [Cls [CRange 48 57],
           Seq (Cls [CRange 49 57]) (Cls [CRange 48 57]),
           Seq (Lit (cps ''1'')) (Seq (Cls [CRange 48 57]) (Cls [CRange 48 57])),
           Seq (Lit (cps ''2'')) (Seq (Cls [CRange 48 52]) (Cls [CRange 48 57])),
           Seq (Lit (cps ''25'')) (Cls [CRange 48 53])]"

definition tail_class :: "cc list" where
  "tail_class =
     [CRange 97 122, CRange 48 57] @
     map CChar [33, 42, 39, 40, 41, 59, 58, 38, 61, 43, 36, 47, 37, 35, 91, 93, 45, 95, 46,
                44, 126, 63]"

definition url_scheme :: regex where
  "url_scheme =
     Star (Alt (Seq (Lit (cps ''http'')) (Seq (Opt (Lit (cps ''s''))) (Lit (cps ''://''))))
               (Seq (Lit (cps (''www'' @ [CHR 0x5C]))) AnyChar))"

definition url_domain :: regex where
  "url_domain = Seq (Plus (Cls [CWord, CRange 43 95])) (Cls [CChar 46])"

definition url_tld :: regex where
  "url_tld = alts (map (\<lambda>t. Seq (Lit t) WordB) TLDS @ [octet])"

definition url_tail :: regex where
  "url_tail = Star (Seq (Opt (Cls [CChar 58, CWord, CChar 43, CChar 47])) (Cls tail_class))"

definition URL_REGEXP :: regex where
  "URL_REGEXP = Seq url_scheme (Seq url_domain (Seq (Plus url_tld) url_tail))"

definition calc_expected_status_length :: "unicode_db \<Rightarrow> pystr \<Rightarrow> int \<Rightarrow> int" where
  "calc_expected_status_length U status short_url_length =
     (let replaced_chars = 0;
          status_length = int (length status);
          match = findall U URL_REGEXP status;
          replaced_chars = (if length match \<ge> 1 then int (length (concat match))
                            else replaced_chars);
          status_length = status_length - replaced_chars
                            + (short_url_length * int (length match))
      in status_length)"

definition is_url :: "unicode_db \<Rightarrow> pystr \<Rightarrow> bool" where
  "is_url U text = (if findall U URL_REGEXP text \<noteq> [] then True else False)"

text \<open>
  Python checks types when the call runs. The argument of either function is a \<open>str\<close> or
  some other object; \<open>re.findall\<close> with a \<open>str\<close> pattern raises \<open>TypeError\<close> on everything
  that is not a \<open>str\<close>, whether or not \<open>len\<close> accepted it before.
\<close>

datatype py_error =
    TypeError
  | AttributeError
  | ValueError
  | FileNotFoundError
  | IsADirectoryError
  | PermissionError
  | URLError
  | UnsupportedOperation
  | TwitterError string

datatype py_arg = Str pystr | NotStr

subsection \<open>Evaluating the pattern on a concrete subject\<close>

text \<open>
  The alternation over the registry has more than a thousand branches. \<open>try_tlds\<close> walks
  the list of labels and is what the search does on that alternation; the rewrite rules
  below let the simplifier run the search on a given subject one label at a time.
\<close>

primrec try_tlds :: "unicode_db \<Rightarrow> pystr list \<Rightarrow> frame list \<Rightarrow> cursor \<Rightarrow> cursor option" where
  "try_tlds U [] fs cur = None"
| "try_tlds U (t # ts) fs cur =
     (case bt U (M (Lit t) # M WordB # fs) cur of
        Some e \<Rightarrow> Some e
      | None \<Rightarrow> try_tlds U ts fs cur)"

fun or_else_tlds ::
  "cursor option \<Rightarrow> unicode_db \<Rightarrow> pystr list \<Rightarrow> frame list \<Rightarrow> cursor \<Rightarrow> cursor option" where
  "or_else_tlds (Some e) U ts fs cur = Some e"
| "or_else_tlds None U ts fs cur = try_tlds U ts fs cur"

lemma try_tlds_Cons:
  "try_tlds U (t # ts) fs cur = or_else_tlds (bt U (M (Lit t) # M WordB # fs) cur) U ts fs cur"
  by (cases "bt U (M (Lit t) # M WordB # fs) cur") simp_all

declare try_tlds.simps(2) [simp del]

lemma bt_alts_tlds:
  "bt U (M (alts (map (\<lambda>t. Seq (Lit t) WordB) ts @ [r])) # fs) cur =
     (case try_tlds U ts fs cur of Some e \<Rightarrow> Some e | None \<Rightarrow> bt U (M r # fs) cur)"
proof (induction ts)
  case Nil
  show ?case by simp
next
  case (Cons t ts)
  have "alts (map (\<lambda>t. Seq (Lit t) WordB) (t # ts) @ [r]) =
        Alt (Seq (Lit t) WordB) (alts (map (\<lambda>t. Seq (Lit t) WordB) ts @ [r]))"
    by (cases ts) simp_all
  then show ?case using Cons.IH
    by (simp add: try_tlds.simps(2) split: option.splits)
qed

lemma bt_url_tld:
  "bt U (M url_tld # fs) cur =
     (case try_tlds U TLDS fs cur of Some e \<Rightarrow> Some e | None \<Rightarrow> bt U (M octet # fs) cur)"
  unfolding url_tld_def by (rule bt_alts_tlds)

lemma match_lit_cps_Nil: "match_lit U (cps []) cur = Some cur"
  by (simp add: cps_def)

lemma match_lit_cps_Cons_Nil: "match_lit U (cps (p # ps)) (prev, []) = None"
  by (simp add: cps_def)

lemma match_lit_cps_Cons:
  "match_lit U (cps (p # ps)) (prev, c # cs) =
     (if ci_eq U (of_char p) c then match_lit U (cps ps) (Some c, cs) else None)"
  by (simp add: cps_def)

lemmas run_search =
  URL_REGEXP_def url_scheme_def url_domain_def url_tail_def bt_url_tld try_tlds_Cons
  match_lit_cps_Nil match_lit_cps_Cons_Nil match_lit_cps_Cons
  TLDS_def TLDS_1_def TLDS_2_def TLDS_3_def TLDS_4_def TLDS_5_def TLDS_6_def TLDS_7_def
  octet_def tail_class_def Opt_def Plus_def findall_def scan.simps
  ci_eq_def ascii_lower_def is_word_def at_boundary_def ascii_db_def

subsection \<open>What the scan returns\<close>

lemma match_lit_suffix:
  "match_lit U p cur = Some cur' \<Longrightarrow> \<exists>xs. snd cur = xs @ snd cur'"
proof (induction U p cur rule: match_lit.induct)
  case (1 U cur)
  then show ?case by simp
next
  case (2 U p ps prev)
  then show ?case by simp
next
  case (3 U p ps prev c cs)
  then obtain xs where "cs = xs @ snd cur'"
    by (auto split: if_splits)
  then have "c # cs = (c # xs) @ snd cur'" by simp
  then show ?case by (metis snd_conv)
qed

lemma bt_suffix:
  "bt U fs cur = Some cur' \<Longrightarrow> \<exists>xs. snd cur = xs @ snd cur'"
proof (induction U fs cur arbitrary: cur' rule: bt.induct)
  case (1 U cur)
  then show ?case by simp
next
  case (2 U n fs prev rest)
  then show ?case by (auto split: if_splits)
next
  case (3 U p fs cur)
  from "3.prems" obtain c1 where m: "match_lit U p cur = Some c1" and b: "bt U fs c1 = Some cur'"
    by (auto split: option.splits)
  from match_lit_suffix[OF m] obtain xs where xs: "snd cur = xs @ snd c1" by blast
  from "3.IH"[OF m b] obtain ys where ys: "snd c1 = ys @ snd cur'" by blast
  from xs ys have "snd cur = (xs @ ys) @ snd cur'" by simp
  then show ?case by blast
next
  case (4 U fs prev rest)
  from "4.prems" obtain c cs where r: "rest = c # cs" and n: "c \<noteq> 10"
      and b: "bt U fs (Some c, cs) = Some cur'"
    by (auto split: list.splits if_splits)
  from "4.IH"[OF r n b] obtain ys where "cs = ys @ snd cur'" by auto
  then have "rest = (c # ys) @ snd cur'" using r by simp
  then show ?case by (metis snd_conv)
next
  case (5 U items fs prev rest)
  from "5.prems" obtain c cs where r: "rest = c # cs"
      and n: "list_ex (\<lambda>i. cc_match U i c) items"
      and b: "bt U fs (Some c, cs) = Some cur'"
    by (auto split: list.splits if_splits)
  from "5.IH"[OF r n b] obtain ys where "cs = ys @ snd cur'" by auto
  then have "rest = (c # ys) @ snd cur'" using r by simp
  then show ?case by (metis snd_conv)
next
  case (6 U fs prev rest)
  then show ?case by (auto split: if_splits)
next
  case (7 U a b fs cur)
  then show ?case by simp
next
  case (8 U a b fs cur)
  then show ?case by (auto split: option.splits)
next
  case (9 U a fs prev rest)
  then show ?case by (auto split: option.splits)
qed

text \<open>
  \<open>weave gaps ms\<close> is the text that has the strings \<open>ms\<close> in this order with the strings
  \<open>gaps\<close> before, between and after them.
\<close>

fun weave :: "'a list list \<Rightarrow> 'a list list \<Rightarrow> 'a list" where
  "weave (g # gs) (m # ms) = g @ m @ weave gs ms"
| "weave (g # gs) [] = g"
| "weave [] ms = []"

lemma weave_push:
  "length gs = Suc (length ms) \<Longrightarrow>
     \<exists>gs'. length gs' = Suc (length ms) \<and> weave gs' ms = c # weave gs ms"
proof (cases gs)
  case Nil
  assume "length gs = Suc (length ms)"
  with Nil show ?thesis by simp
next
  case (Cons g gs0)
  assume len: "length gs = Suc (length ms)"
  have "weave ((c # g) # gs0) ms = c # weave (g # gs0) ms"
    by (cases ms) simp_all
  with Cons len show ?thesis
    by (intro exI[of _ "(c # g) # gs0"]) simp
qed

lemma scan_weave:
  "\<exists>gaps. length gaps = Suc (length (scan U r prev rest)) \<and>
          weave gaps (scan U r prev rest) = rest"
proof (induction U r prev rest rule: scan.induct)
  case (1 U r prev rest)
  show ?case
  proof (cases "bt U [M r] (prev, rest)")
    case None
    show ?thesis
    proof (cases rest)
      case Nil
      with None have "scan U r prev rest = []" by (subst scan.simps) simp
      with Nil show ?thesis by (intro exI[of _ "[[]]"]) simp
    next
      case (Cons c cs)
      with None have s: "scan U r prev rest = scan U r (Some c) cs"
        by (subst scan.simps) simp
      from "1.IH"(1)[OF None Cons] obtain gs where
        gs: "length gs = Suc (length (scan U r (Some c) cs))"
            "weave gs (scan U r (Some c) cs) = cs" by blast
      from weave_push[OF gs(1), of c] gs(2) s Cons show ?thesis by auto
    qed
  next
    case (Some e)
    obtain p' r' where e: "e = (p', r')" by (cases e)
    show ?thesis
    proof (cases "length r' < length rest")
      case True
      with Some e have s: "scan U r prev rest =
          take (length rest - length r') rest # scan U r p' r'"
        by (subst scan.simps) simp
      from bt_suffix[OF Some] e obtain xs where xs: "rest = xs @ r'" by auto
      then have t: "take (length rest - length r') rest = xs" by simp
      from "1.IH"(2)[OF Some e[symmetric] True] obtain gs where
        gs: "length gs = Suc (length (scan U r p' r'))" "weave gs (scan U r p' r') = r'"
        by blast
      have "weave ([] # gs) (xs # scan U r p' r') = rest"
        using gs(2) xs by simp
      with gs(1) s t show ?thesis
        by (intro exI[of _ "[] # gs"]) simp
    next
      case False
      show ?thesis
      proof (cases rest)
        case Nil
        with Some e False have "scan U r prev rest = [[]]" by (subst scan.simps) simp
        with Nil show ?thesis by (intro exI[of _ "[[], []]"]) simp
      next
        case (Cons c cs)
        with Some e False have s: "scan U r prev rest = [] # scan U r (Some c) cs"
          by (subst scan.simps) simp
        from "1.IH"(3)[OF Some e[symmetric] False Cons] obtain gs where
          gs: "length gs = Suc (length (scan U r (Some c) cs))"
              "weave gs (scan U r (Some c) cs) = cs" by blast
        from weave_push[OF gs(1), of c] obtain gs' where
          gs': "length gs' = Suc (length (scan U r (Some c) cs))"
               "weave gs' (scan U r (Some c) cs) = c # cs"
          using gs(2) by auto
        have "weave ([] # gs') ([] # scan U r (Some c) cs) = rest"
          using gs'(2) Cons by simp
        with gs'(1) s show ?thesis
          by (intro exI[of _ "[] # gs'"]) simp
      qed
    qed
  qed
qed

lemma scan_nonempty_iff:
  "scan U r prev rest \<noteq> [] \<longleftrightarrow> matches_somewhere U r prev rest"
proof (induction rest arbitrary: prev)
  case Nil
  show ?case by (subst scan.simps) (auto split: option.splits)
next
  case (Cons c cs)
  show ?case
  proof (cases "bt U [M r] (prev, c # cs)")
    case None
    then have "scan U r prev (c # cs) = scan U r (Some c) cs"
      by (subst scan.simps) simp
    with None Cons.IH show ?thesis by simp
  next
    case (Some e)
    then have "scan U r prev (c # cs) \<noteq> []"
      by (subst scan.simps) (auto split: prod.splits)
    with Some show ?thesis by simp
  qed
qed

lemma length_concat_sum: "length (concat xss) = sum_list (map length xss)"
  by (induction xss) simp_all


section \<open>Runs of the estimator\<close>

text \<open>
  The search and the scan above are total functions by their termination proofs. To say
  that a run of the code comes to an end, both are written once more with a bound on the
  depth of the recursion; \<open>None\<close> is a run that was cut off at the bound, \<open>Some\<close> a run that
  came to its end with the result given. The equations are those of \<open>bt\<close> and \<open>scan\<close>.
\<close>

fun bt_fuel :: "nat \<Rightarrow> unicode_db \<Rightarrow> frame list \<Rightarrow> cursor \<Rightarrow> cursor option option" where
  "bt_fuel 0 U fs cur = None"
| "bt_fuel (Suc k) U [] cur = Some (Some cur)"
| "bt_fuel (Suc k) U (Guard n # fs) (prev, rest) =
     (if length rest < n then bt_fuel k U fs (prev, rest) else Some None)"
| "bt_fuel (Suc k) U (M (Lit p) # fs) cur =
     (case match_lit U p cur of None \<Rightarrow> Some None | Some cur' \<Rightarrow> bt_fuel k U fs cur')"
| "bt_fuel (Suc k) U (M AnyChar # fs) (prev, rest) =
     (case rest of [] \<Rightarrow> Some None
      | c # cs \<Rightarrow> if c = 10 then Some None else bt_fuel k U fs (Some c, cs))"
| "bt_fuel (Suc k) U (M (Cls items) # fs) (prev, rest) =
     (case rest of [] \<Rightarrow> Some None
      | c # cs \<Rightarrow>
          if list_ex (\<lambda>i. cc_match U i c) items then bt_fuel k U fs (Some c, cs) else Some None)"
| "bt_fuel (Suc k) U (M WordB # fs) (prev, rest) =
     (if at_boundary U prev rest then bt_fuel k U fs (prev, rest) else Some None)"
| "bt_fuel (Suc k) U (M (Seq a b) # fs) cur = bt_fuel k U (M a # M b # fs) cur"
| "bt_fuel (Suc k) U (M (Alt a b) # fs) cur =
     (case bt_fuel k U (M a # fs) cur of
        None \<Rightarrow> None
      | Some (Some e) \<Rightarrow> Some (Some e)
      | Some None \<Rightarrow> bt_fuel k U (M b # fs) cur)"
| "bt_fuel (Suc k) U (M (Star a) # fs) (prev, rest) =
     (case bt_fuel k U (M a # Guard (length rest) # M (Star a) # fs) (prev, rest) of
        None \<Rightarrow> None
      | Some (Some e) \<Rightarrow> Some (Some e)
      | Some None \<Rightarrow> bt_fuel k U fs (prev, rest))"

fun scan_fuel ::
  "nat \<Rightarrow> unicode_db \<Rightarrow> regex \<Rightarrow> codepoint option \<Rightarrow> pystr \<Rightarrow> pystr list option" where
  "scan_fuel 0 U r prev rest = None"
| "scan_fuel (Suc k) U r prev rest =
     (case bt_fuel k U [M r] (prev, rest) of
        None \<Rightarrow> None
      | Some (Some (prev', rest')) \<Rightarrow>
          if length rest' < length rest
          then (case scan_fuel k U r prev' rest' of
                  None \<Rightarrow> None
                | Some ms \<Rightarrow> Some (take (length rest - length rest') rest # ms))
          else (case rest of
                  [] \<Rightarrow> Some [[]]
                | c # cs \<Rightarrow>
                    (case scan_fuel k U r (Some c) cs of
                       None \<Rightarrow> None
                     | Some ms \<Rightarrow> Some ([] # ms)))
      | Some None \<Rightarrow> (case rest of [] \<Rightarrow> Some [] | c # cs \<Rightarrow> scan_fuel k U r (Some c) cs))"

definition findall_fuel :: "nat \<Rightarrow> unicode_db \<Rightarrow> regex \<Rightarrow> pystr \<Rightarrow> pystr list option" where
  "findall_fuel k U r s = scan_fuel k U r None s"

text \<open>
  A run of \<open>calc_expected_status_length\<close> and of \<open>is_url\<close> on an argument, with the bound
  \<open>k\<close> on the search: the run is cut off, or it raises, or it returns a value.
\<close>

fun calc_expected_status_length_run ::
  "nat \<Rightarrow> unicode_db \<Rightarrow> py_arg \<Rightarrow> int \<Rightarrow> (py_error + int) option" where
  "calc_expected_status_length_run k U (Str status) short_url_length =
     (case findall_fuel k U URL_REGEXP status of
        None \<Rightarrow> None
      | Some match \<Rightarrow>
          (let replaced_chars = 0;
               status_length = int (length status);
               replaced_chars = (if length match \<ge> 1 then int (length (concat match))
                                 else replaced_chars);
               status_length = status_length - replaced_chars
                                 + (short_url_length * int (length match))
           in Some (Inr status_length)))"
| "calc_expected_status_length_run k U NotStr short_url_length = Some (Inl TypeError)"

fun is_url_run :: "nat \<Rightarrow> unicode_db \<Rightarrow> py_arg \<Rightarrow> (py_error + bool) option" where
  "is_url_run k U (Str text) =
     (case findall_fuel k U URL_REGEXP text of
        None \<Rightarrow> None
      | Some match \<Rightarrow> Some (Inr (if match \<noteq> [] then True else False)))"
| "is_url_run k U NotStr = Some (Inl TypeError)"

text \<open>The depth that is enough for a subject: the cost of the pattern and one level for
  each position of the scan.\<close>

definition run_bound :: "regex \<Rightarrow> pystr \<Rightarrow> nat" where
  "run_bound r s = cost r (length s) + length s + 2"

lemma bt_fuel_sound: "bt_fuel k U fs cur = Some res \<Longrightarrow> res = bt U fs cur"
proof (induction k U fs cur arbitrary: res rule: bt_fuel.induct)
  case (9 k U a b fs cur)
  then show ?case by (auto split: option.splits)
next
  case (10 k U a fs prev rest)
  then show ?case by (auto split: option.splits)
qed (auto split: option.splits list.splits if_splits)

lemma bt_fuel_enough:
  "stack_cost fs (length (snd cur)) < k \<Longrightarrow> bt_fuel k U fs cur = Some (bt U fs cur)"
proof (induction k arbitrary: fs cur)
  case 0
  then show ?case by simp
next
  case (Suc k)
  note IH = Suc.IH
  show ?case
  proof (cases "(U, fs, cur)" rule: bt.cases)
    case (1 U' cur')
    then show ?thesis by simp
  next
    case (2 U' n fs' prev rest)
    with Suc.prems IH[of fs' "(prev, rest)"] show ?thesis by (auto split: if_splits)
  next
    case (3 U' p fs' cur')
    show ?thesis
    proof (cases "match_lit U p cur")
      case None
      with 3 show ?thesis by simp
    next
      case (Some c1)
      from match_lit_length[OF Some]
      have "stack_cost fs' (length (snd c1)) \<le> stack_cost fs' (length (snd cur))"
        by (rule stack_cost_mono)
      with Suc.prems 3 have "stack_cost fs' (length (snd c1)) < k" by simp
      from IH[OF this] 3 Some show ?thesis by simp
    qed
  next
    case (4 U' fs' prev rest)
    show ?thesis
    proof (cases rest)
      case Nil
      with 4 show ?thesis by simp
    next
      case (Cons c cs)
      have "stack_cost fs' (length cs) \<le> stack_cost fs' (Suc (length cs))"
        by (rule stack_cost_mono) simp
      with Suc.prems 4 Cons have "stack_cost fs' (length (snd (Some c, cs))) < k" by simp
      from IH[OF this] 4 Cons show ?thesis by simp
    qed
  next
    case (5 U' items fs' prev rest)
    show ?thesis
    proof (cases rest)
      case Nil
      with 5 show ?thesis by simp
    next
      case (Cons c cs)
      have "stack_cost fs' (length cs) \<le> stack_cost fs' (Suc (length cs))"
        by (rule stack_cost_mono) simp
      with Suc.prems 5 Cons have "stack_cost fs' (length (snd (Some c, cs))) < k" by simp
      from IH[OF this] 5 Cons show ?thesis by simp
    qed
  next
    case (6 U' fs' prev rest)
    with Suc.prems IH[of fs' "(prev, rest)"] show ?thesis by simp
  next
    case (7 U' a b fs' cur')
    with Suc.prems IH[of "M a # M b # fs'" cur] show ?thesis by simp
  next
    case (8 U' a b fs' cur')
    with Suc.prems IH[of "M a # fs'" cur] IH[of "M b # fs'" cur] show ?thesis
      by (simp split: option.splits)
  next
    case (9 U' a fs' prev rest)
    have "stack_cost (M a # Guard (length rest) # M (Star a) # fs') (length rest)
            < stack_cost (M (Star a) # fs') (length rest)"
      by (rule star_cost_step)
    with Suc.prems 9
    have "stack_cost (M a # Guard (length rest) # M (Star a) # fs') (length (snd (prev, rest))) < k"
      by (simp del: stack_cost.simps cost.simps)
    from IH[OF this]
    have a: "bt_fuel k U (M a # Guard (length rest) # M (Star a) # fs') (prev, rest)
               = Some (bt U (M a # Guard (length rest) # M (Star a) # fs') (prev, rest))" .
    from Suc.prems 9 have "stack_cost fs' (length (snd (prev, rest))) < k" by simp
    from IH[OF this] have b: "bt_fuel k U fs' (prev, rest) = Some (bt U fs' (prev, rest))" .
    from 9 a b show ?thesis by (simp split: option.splits)
  qed
qed

lemma scan_fuel_sound: "scan_fuel k U r prev rest = Some ms \<Longrightarrow> ms = scan U r prev rest"
proof (induction k arbitrary: prev rest ms)
  case 0
  then show ?case by simp
next
  case (Suc k)
  from Suc.prems obtain res where f: "bt_fuel k U [M r] (prev, rest) = Some res"
    by (auto split: option.splits)
  from bt_fuel_sound[OF f] have res: "bt U [M r] (prev, rest) = res" by simp
  show ?case
  proof (cases res)
    case None
    show ?thesis
    proof (cases rest)
      case Nil
      with Suc.prems f None res show ?thesis by (subst scan.simps) simp
    next
      case (Cons c cs)
      from Suc.prems f None Cons have "scan_fuel k U r (Some c) cs = Some ms" by simp
      from Suc.IH[OF this] have "ms = scan U r (Some c) cs" .
      with None res Cons show ?thesis by (subst scan.simps) simp
    qed
  next
    case (Some e)
    obtain prev' rest' where e: "e = (prev', rest')" by (cases e) auto
    show ?thesis
    proof (cases "length rest' < length rest")
      case True
      from Suc.prems f Some e True obtain ms' where
        m: "scan_fuel k U r prev' rest' = Some ms'"
        and ms: "ms = take (length rest - length rest') rest # ms'"
        by (auto split: option.splits)
      from Suc.IH[OF m] have "ms' = scan U r prev' rest'" .
      with ms Some e res True show ?thesis by (subst scan.simps) simp
    next
      case False
      show ?thesis
      proof (cases rest)
        case Nil
        with Suc.prems f Some e False res show ?thesis by (subst scan.simps) simp
      next
        case (Cons c cs)
        from Suc.prems f Some e False Cons obtain ms' where
          m: "scan_fuel k U r (Some c) cs = Some ms'" and ms: "ms = [] # ms'"
          by (auto split: option.splits)
        from Suc.IH[OF m] have "ms' = scan U r (Some c) cs" .
        with ms Some e res False Cons show ?thesis by (subst scan.simps) simp
      qed
    qed
  qed
qed

lemma scan_fuel_enough:
  "cost r (length rest) + length rest + 1 < k \<Longrightarrow>
     scan_fuel k U r prev rest = Some (scan U r prev rest)"
proof (induction k arbitrary: prev rest)
  case 0
  then show ?case by simp
next
  case (Suc k)
  have f: "bt_fuel k U [M r] (prev, rest) = Some (bt U [M r] (prev, rest))"
    using Suc.prems by (intro bt_fuel_enough) simp
  have shorter: "scan_fuel k U r p' rest' = Some (scan U r p' rest')"
    if "length rest' < length rest" for p' rest'
  proof (rule Suc.IH)
    have "cost r (length rest') \<le> cost r (length rest)"
      using that by (intro cost_mono) simp
    with that Suc.prems show "cost r (length rest') + length rest' + 1 < k" by simp
  qed
  show ?case
  proof (cases "bt U [M r] (prev, rest)")
    case None
    show ?thesis
    proof (cases rest)
      case Nil
      with f None show ?thesis by (subst scan.simps) simp
    next
      case (Cons c cs)
      with shorter[of cs "Some c"] f None show ?thesis by (subst scan.simps) simp
    qed
  next
    case (Some e)
    obtain prev' rest' where e: "e = (prev', rest')" by (cases e) auto
    show ?thesis
    proof (cases "length rest' < length rest")
      case True
      with shorter[of rest' prev'] f Some e show ?thesis by (subst scan.simps) simp
    next
      case False
      show ?thesis
      proof (cases rest)
        case Nil
        with f Some e False show ?thesis by (subst scan.simps) simp
      next
        case (Cons c cs)
        with shorter[of cs "Some c"] f Some e False show ?thesis
          by (subst scan.simps) simp
      qed
    qed
  qed
qed

lemma findall_fuel_enough:
  "run_bound r s \<le> k \<Longrightarrow> findall_fuel k U r s = Some (findall U r s)"
  unfolding findall_fuel_def findall_def run_bound_def
  by (rule scan_fuel_enough) simp

lemma findall_fuel_sound:
  "findall_fuel k U r s = Some ms \<Longrightarrow> ms = findall U r s"
  unfolding findall_fuel_def findall_def by (rule scan_fuel_sound)


section \<open>The media resolver\<close>

text \<open>
  \<open>parse_media_file\<close> works on the file system, the network and the table of
  \<open>mimetypes\<close>. They are the environment of the call: \<open>realpath\<close> and \<open>files\<close> give what
  is stored under a path (nothing, a regular file with its content, a directory, or a file
  that the process may not read), \<open>urlopen\<close> the outcome of opening a URL (a response, a
  string that \<open>urlopen\<close> does not take for a URL, which raises \<open>ValueError\<close>, or a
  failure of the transport, which raises \<open>URLError\<close>), \<open>guess_type\<close> the first component
  of \<open>mimetypes.guess_type\<close>.
\<close>

type_synonym bytes = "nat list"

record py_file =
  f_name :: "string option"
  f_data :: bytes
  f_pos :: nat
  f_closed :: bool
  f_seekable :: bool

record http_response =
  r_length :: "int option"
  r_body :: bytes

datatype data_file = File py_file | Response http_response

datatype fs_entry = Regular bytes | Directory | Unreadable

datatype url_outcome = Reply http_response | UnknownUrlType | Unreachable

record environment =
  realpath :: "string \<Rightarrow> string"
  files :: "string \<Rightarrow> fs_entry option"
  urlopen :: "string \<Rightarrow> url_outcome"
  guess_type :: "string \<Rightarrow> string option"

text \<open>
  The argument either has a \<open>read\<close> attribute (an open stream) or it is a string.
\<close>

datatype media_ref = StrRef string | StreamRef py_file

text \<open>
  File objects: \<open>open(path, 'rb')\<close>, \<open>seek(0, 2)\<close>, \<open>seek(0)\<close>, \<open>tell()\<close>, \<open>read()\<close> and
  \<open>close()\<close>. Every operation on a closed file raises \<open>ValueError\<close>; seeking a stream
  that cannot seek raises \<open>UnsupportedOperation\<close>, which is what a response of \<open>urlopen\<close>
  does.
\<close>

definition open_rb :: "environment \<Rightarrow> string \<Rightarrow> py_error + py_file" where
  "open_rb env path =
     (case files env path of
        None \<Rightarrow> Inl FileNotFoundError
      | Some Directory \<Rightarrow> Inl IsADirectoryError
      | Some Unreadable \<Rightarrow> Inl PermissionError
      | Some (Regular d) \<Rightarrow>
          Inr \<lparr>f_name = Some path, f_data = d, f_pos = 0, f_closed = False,
               f_seekable = True\<rparr>)"

definition seek_end :: "py_file \<Rightarrow> py_error + py_file" where
  "seek_end f =
     (if f_closed f then Inl ValueError
      else if \<not> f_seekable f then Inl UnsupportedOperation
      else Inr (f\<lparr>f_pos := length (f_data f)\<rparr>))"

definition seek_start :: "py_file \<Rightarrow> py_error + py_file" where
  "seek_start f =
     (if f_closed f then Inl ValueError
      else if \<not> f_seekable f then Inl UnsupportedOperation
      else Inr (f\<lparr>f_pos := 0\<rparr>))"

definition tell :: "py_file \<Rightarrow> py_error + int" where
  "tell f = (if f_closed f then Inl ValueError else Inr (int (f_pos f)))"

definition close :: "py_file \<Rightarrow> py_file" where
  "close f = f\<lparr>f_closed := True\<rparr>"

definition read :: "py_file \<Rightarrow> py_error + bytes \<times> py_file" where
  "read f =
     (if f_closed f then Inl ValueError
      else Inr (drop (f_pos f) (f_data f), f\<lparr>f_pos := max (f_pos f) (length (f_data f))\<rparr>))"

definition basename :: "string \<Rightarrow> string" where
  "basename p = rev (takeWhile (\<lambda>c. c \<noteq> CHR ''/'') (rev p))"

definition startswith :: "string \<Rightarrow> string \<Rightarrow> bool" where
  "startswith s pre = (take (length pre) s = pre)"

definition img_formats :: "string list" where
  "img_formats = [''image/jpeg'', ''image/png'', ''image/gif'', ''image/bmp'', ''image/webp'']"

definition video_formats :: "string list" where
  "video_formats = [''video/mp4'']"

text \<open>\<open>media_type in formats\<close>; \<open>None\<close> is in neither list.\<close>

definition in_formats :: "string option \<Rightarrow> string list \<Rightarrow> bool" where
  "in_formats media_type formats =
     (case media_type of None \<Rightarrow> False | Some t \<Rightarrow> t \<in> set formats)"

text \<open>
  \<open>a and file_size > limit\<close>: the comparison runs only when \<open>a\<close> holds, and comparing
  \<open>None\<close> (a response without a length) with a number raises \<open>TypeError\<close>.
\<close>

definition and_greater :: "bool \<Rightarrow> int option \<Rightarrow> int \<Rightarrow> py_error + bool" where
  "and_greater a file_size limit =
     (if \<not> a then Inr False
      else case file_size of None \<Rightarrow> Inl TypeError | Some n \<Rightarrow> Inr (n > limit))"

text \<open>
  The first part of \<open>parse_media_file\<close>, up to the point where \<open>data_file\<close>, \<open>filename\<close>
  and \<open>file_size\<close> are set. The local file is opened by a \<open>with\<close> statement, which closes
  it when the block is left, on the normal path and when \<open>seek\<close> or \<open>tell\<close> raise.
\<close>

definition open_passed_media ::
  "environment \<Rightarrow> media_ref \<Rightarrow> py_error + data_file \<times> string \<times> int option" where
  "open_passed_media env passed_media =
     (case passed_media of
        StrRef p \<Rightarrow>
          if startswith p ''http''
          then (let filename = basename p in
                case urlopen env p of
                  UnknownUrlType \<Rightarrow> Inl ValueError
                | Unreachable \<Rightarrow> Inl URLError
                | Reply data_file \<Rightarrow> Inr (Response data_file, filename, r_length data_file))
          else (case open_rb env (realpath env p) of
                  Inl e \<Rightarrow> Inl e
                | Inr f \<Rightarrow>
                    (let filename = basename p in
                     case seek_end f of
                       Inl e \<Rightarrow> Inl e
                     | Inr data_file \<Rightarrow>
                         (case tell data_file of
                            Inl e \<Rightarrow> Inl e
                          | Inr file_size \<Rightarrow>
                              Inr (File (close data_file), filename, Some file_size))))
      | StreamRef s \<Rightarrow>
          (case f_name s of
             None \<Rightarrow> Inl AttributeError
           | Some filename \<Rightarrow>
               (case seek_end s of
                  Inl e \<Rightarrow> Inl e
                | Inr data_file \<Rightarrow>
                    (case tell data_file of
                       Inl e \<Rightarrow> Inl e
                     | Inr file_size \<Rightarrow> Inr (File data_file, filename, Some file_size)))))"

text \<open>\<open>try: data_file.seek(0) except: pass\<close>\<close>

definition try_seek_start :: "data_file \<Rightarrow> data_file" where
  "try_seek_start d =
     (case d of
        File f \<Rightarrow> (case seek_start f of Inl e \<Rightarrow> File f | Inr f' \<Rightarrow> File f')
      | Response r \<Rightarrow> Response r)"

definition parse_media_file ::
  "environment \<Rightarrow> media_ref
     \<Rightarrow> py_error + data_file \<times> string \<times> int option \<times> string option" where
  "parse_media_file env passed_media =
     (case open_passed_media env passed_media of
        Inl e \<Rightarrow> Inl e
      | Inr (data_file, filename, file_size) \<Rightarrow>
          (let data_file = try_seek_start data_file;
               media_type = guess_type env (basename filename)
           in case and_greater (in_formats media_type img_formats) file_size (5 * 1048576) of
                Inl e \<Rightarrow> Inl e
              | Inr True \<Rightarrow> Inl (TwitterError ''Images must be less than 5MB.'')
              | Inr False \<Rightarrow>
                 (case and_greater (in_formats media_type video_formats) file_size
                         (15 * 1048576) of
                    Inl e \<Rightarrow> Inl e
                  | Inr True \<Rightarrow> Inl (TwitterError ''Videos must be less than 15MB.'')
                  | Inr False \<Rightarrow>
                      if \<not> in_formats media_type img_formats
                         \<and> \<not> in_formats media_type video_formats
                      then Inl (TwitterError ''Media type could not be determined.'')
                      else Inr (data_file, filename, file_size, media_type))))"

text \<open>
  Environments for the scenarios. In \<open>scenario_env\<close> the working directory is \<open>/home\<close>,
  the regular files are the ones given, there is no network, and \<open>guess_type\<close> has the
  entries of the table of \<open>mimetypes\<close> for the four names used. In \<open>web_env\<close> there are
  no files and the URLs given are answered with the responses given.
\<close>

definition scenario_env :: "(string \<times> bytes) list \<Rightarrow> environment" where
  "scenario_env fs =
     \<lparr>realpath = (\<lambda>p. ''/home/'' @ p),
      files = (\<lambda>p. case map_of fs p of None \<Rightarrow> None | Some d \<Rightarrow> Some (Regular d)),
      urlopen = (\<lambda>u. Unreachable),
      guess_type = map_of
        [(''photo.jpg'', ''image/jpeg''), (''photo.png'', ''image/png''),
         (''clip.mp4'', ''video/mp4''), (''notes.txt'', ''text/plain'')]\<rparr>"



section \<open>Model objects\<close>

text \<open>
  The values that the models hold and exchange: \<open>None\<close>, booleans, integers, strings, lists,
  dictionaries and instances of the model classes. A dictionary is the list of its items
  in insertion order, with distinct keys; an instance is its class and its attribute
  dictionary. Field names and string values are only compared and tested for emptiness, so
  they are Isabelle strings. Floating-point numbers are left out.
\<close>

datatype model_class =
  Media | List | Category | DirectMessage | Trend | Hashtag | Url | UserStatus | User | Status

datatype pyval =
    PNone
  | PBool bool
  | PInt int
  | PStr string
  | PList "pyval list"
  | PDict "(string \<times> pyval) list"
  | PObj model_class "(string \<times> pyval) list"

type_synonym pydict = "(string \<times> pyval) list"

text \<open>Truth value testing. The model classes define neither \<open>__bool__\<close> nor \<open>__len__\<close>.\<close>

fun truthy :: "pyval \<Rightarrow> bool" where
  "truthy PNone = False"
| "truthy (PBool b) = b"
| "truthy (PInt i) = (i \<noteq> 0)"
| "truthy (PStr s) = (s \<noteq> [])"
| "truthy (PList xs) = (xs \<noteq> [])"
| "truthy (PDict d) = (d \<noteq> [])"
| "truthy (PObj c a) = True"

fun keys_none :: "string list \<Rightarrow> pydict" where
  "keys_none ks = map (\<lambda>k. (k, PNone)) ks"

fun param_defaults :: "model_class \<Rightarrow> pydict" where
  "param_defaults Media =
     keys_none [''id'', ''expanded_url'', ''display_url'', ''url'', ''media_url_https'',
                ''media_url'', ''type'']"
| "param_defaults List =
     keys_none [''id'', ''name'', ''slug'', ''description'', ''full_name'', ''mode'', ''uri'',
                ''member_count'', ''subscriber_count'', ''following'', ''user'']"
| "param_defaults Category = keys_none [''name'', ''slug'', ''size'']"
| "param_defaults DirectMessage =
     keys_none [''id'', ''created_at'', ''sender_id'', ''sender_screen_name'',
                ''recipient_id'', ''recipient_screen_name'', ''text'']"
| "param_defaults Trend =
     keys_none [''events'', ''name'', ''promoted_content'', ''query'', ''timestamp'', ''url'',
                ''volume'']"
| "param_defaults Hashtag = keys_none [''text'']"
| "param_defaults Url = keys_none [''expanded_url'', ''url'']"
| "param_defaults UserStatus =
     [(''blocking'', PBool False), (''followed_by'', PBool False), (''following'', PBool False),
      (''following_received'', PBool False), (''following_requested'', PBool False),
      (''id'', PNone), (''id_str'', PNone), (''muting'', PBool False), (''name'', PNone),
      (''screen_name'', PNone)]"
| "param_defaults User =
     keys_none [''contributors_enabled'', ''created_at'', ''default_profile'',
                ''default_profile_image'', ''description'', ''favourites_count'',
                ''followers_count'', ''friends_count'', ''geo_enabled'', ''id'', ''lang'',
                ''listed_count'', ''location'', ''name'', ''notifications'',
                ''profile_background_color'', ''profile_background_image_url'',
                ''profile_background_tile'', ''profile_banner_url'', ''profile_image_url'',
                ''profile_link_color'', ''profile_sidebar_fill_color'',
                ''profile_text_color'', ''protected'', ''screen_name'', ''status'',
                ''statuses_count'', ''time_zone'', ''url'', ''utc_offset'', ''verified'']"
| "param_defaults Status =
     keys_none [''contributors'', ''coordinates'', ''created_at'', ''current_user_retweet'',
                ''favorite_count'', ''favorited'', ''geo'', ''hashtags'', ''id'', ''id_str'',
                ''in_reply_to_screen_name'', ''in_reply_to_status_id'',
                ''in_reply_to_user_id'', ''lang'', ''location'', ''media'', ''now'', ''place'',
                ''possibly_sensitive'', ''retweet_count'', ''retweeted'',
                ''retweeted_status'', ''scopes'', ''source'', ''text'', ''truncated'', ''urls'',
                ''user'', ''user_mentions'', ''withheld_copyright'',
                ''withheld_in_countries'', ''withheld_scope'']"

definition field_names :: "model_class \<Rightarrow> string list" where
  "field_names cls = map fst (param_defaults cls)"

text \<open>\<open>d.get(key, default)\<close>, \<open>getattr(self, key, None)\<close> and \<open>setattr(self, key, v)\<close>.\<close>

definition dict_get :: "pydict \<Rightarrow> string \<Rightarrow> pyval \<Rightarrow> pyval" where
  "dict_get d key dflt = (case map_of d key of Some v \<Rightarrow> v | None \<Rightarrow> dflt)"

definition getattr :: "pydict \<Rightarrow> string \<Rightarrow> pyval" where
  "getattr attrs key = dict_get attrs key PNone"

fun setattr :: "pydict \<Rightarrow> string \<Rightarrow> pyval \<Rightarrow> pydict" where
  "setattr [] key v = [(key, v)]"
| "setattr ((k, w) # attrs) key v =
     (if k = key then (key, v) # attrs else (k, w) # setattr attrs key v)"

subsection \<open>\<open>AsDict\<close>\<close>

text \<open>
  The loop of \<open>AsDict\<close> over the keys of \<open>param_defaults\<close>: an attribute that has an
  \<open>AsDict\<close> method (an instance) is entered converted, any other attribute is entered when
  it is truthy, and otherwise the key is left out.
\<close>

lemma map_of_size:
  "map_of attrs key = Some v \<Longrightarrow> size v < Suc (size_list (size_prod (\<lambda>x. 0) size) attrs)"
proof (induction attrs)
  case Nil
  then show ?case by simp
next
  case (Cons kv attrs)
  then show ?case by (cases kv) (auto split: if_splits)
qed

function AsDict_loop :: "string list \<Rightarrow> pydict \<Rightarrow> pydict" where
  "AsDict_loop [] attrs = []"
| "AsDict_loop (key # keys) attrs =
     (case getattr attrs key of
        PObj c a \<Rightarrow> [(key, PDict (AsDict_loop (map fst (param_defaults c)) a))]
      | v \<Rightarrow> if truthy v then [(key, v)] else [])
     @ AsDict_loop keys attrs"
  by pat_completeness auto
termination
proof (relation "(\<lambda>(keys, attrs). size_list (size_prod (\<lambda>x. 0) size) attrs)
                   <*mlex*> measure (\<lambda>(keys, attrs). length keys)", goal_cases)
  case 1
  then show ?case by (simp add: wf_mlex)
next
  case (2 key keys attrs c a)
  then have "map_of attrs key = Some (PObj c a)"
    by (auto simp: getattr_def dict_get_def split: option.splits)
  from map_of_size[OF this] show ?case by (simp add: mlex_iff)
next
  case (3 key keys attrs)
  then show ?case by (simp add: mlex_iff)
qed

definition AsDict :: "model_class \<Rightarrow> pydict \<Rightarrow> pydict" where
  "AsDict cls attrs = AsDict_loop (map fst (param_defaults cls)) attrs"

subsection \<open>Equality of values\<close>

text \<open>
  \<open>a == b\<close> can raise, and on an instance it calls the \<open>__eq__\<close> of the models:
  \<open>other and self.AsDict() == other.AsDict()\<close>. Against a falsy value this is falsy;
  against a truthy value that is not an instance the call \<open>other.AsDict()\<close> raises
  \<open>AttributeError\<close>. Lists of different length are unequal; lists of equal length are
  compared item by item up to the first difference. Dictionaries of different size are
  unequal; otherwise every key of the left one must be in the right one with an equal
  value. Booleans and integers are compared as numbers.
\<close>

fun scalar_eq :: "pyval \<Rightarrow> pyval \<Rightarrow> bool" where
  "scalar_eq PNone PNone = True"
| "scalar_eq (PBool a) (PBool b) = (a = b)"
| "scalar_eq (PBool a) (PInt j) = ((if a then 1 else 0) = j)"
| "scalar_eq (PInt i) (PBool b) = (i = (if b then 1 else 0))"
| "scalar_eq (PInt i) (PInt j) = (i = j)"
| "scalar_eq (PStr s) (PStr t) = (s = t)"
| "scalar_eq a b = False"

fun depth :: "pyval \<Rightarrow> nat"
  and depths :: "pyval list \<Rightarrow> nat"
  and depths_items :: "pydict \<Rightarrow> nat" where
  "depth PNone = 0"
| "depth (PBool b) = 0"
| "depth (PInt i) = 0"
| "depth (PStr s) = 0"
| "depth (PList xs) = Suc (depths xs)"
| "depth (PDict d) = Suc (depths_items d)"
| "depth (PObj c a) = Suc (depths_items a)"
| "depths [] = 0"
| "depths (x # xs) = max (depth x) (depths xs)"
| "depths_items [] = 0"
| "depths_items (kv # d) = max (depth (snd kv)) (depths_items d)"

lemma depths_items_map_of: "map_of d key = Some v \<Longrightarrow> depth v \<le> depths_items d"
proof (induction d)
  case Nil
  then show ?case by simp
next
  case (Cons kv d)
  then show ?case by (cases kv) (auto split: if_splits simp: max_def)
qed

lemma depths_items_append: "depths_items (d @ e) = max (depths_items d) (depths_items e)"
  by (induction d) (simp_all add: max.assoc)

lemma depths_items_AsDict_loop: "depths_items (AsDict_loop keys attrs) \<le> depths_items attrs"
proof (induction keys attrs rule: AsDict_loop.induct)
  case (1 attrs)
  then show ?case by simp
next
  case (2 key keys attrs)
  show ?case
  proof (cases "map_of attrs key")
    case None
    with 2 show ?thesis by (simp add: getattr_def dict_get_def depths_items_append)
  next
    case (Some v)
    from depths_items_map_of[OF Some] have v: "depth v \<le> depths_items attrs" .
    show ?thesis
    proof (cases v)
      case (PObj c a)
      with Some have g: "getattr attrs key = PObj c a"
        by (simp add: getattr_def dict_get_def)
      from "2.IH"(1)[OF g] v PObj "2.IH"(2) g show ?thesis
        by (simp add: depths_items_append)
    qed (use 2 Some v in \<open>auto simp: getattr_def dict_get_def depths_items_append\<close>)
  qed
qed

function py_eq :: "pyval \<Rightarrow> pyval \<Rightarrow> py_error + bool"
  and list_eq :: "pyval list \<Rightarrow> pyval list \<Rightarrow> py_error + bool"
  and dict_eq :: "pydict \<Rightarrow> pydict \<Rightarrow> py_error + bool" where
  "py_eq a b =
     (case (a, b) of
        (PObj c1 a1, PObj c2 a2) \<Rightarrow>
          if length (AsDict c1 a1) = length (AsDict c2 a2)
          then dict_eq (AsDict c1 a1) (AsDict c2 a2) else Inr False
      | (PObj c1 a1, x) \<Rightarrow> if truthy x then Inl AttributeError else Inr False
      | (PList xs, PList ys) \<Rightarrow> if length xs = length ys then list_eq xs ys else Inr False
      | (PDict d1, PDict d2) \<Rightarrow> if length d1 = length d2 then dict_eq d1 d2 else Inr False
      | (x, PObj c2 a2) \<Rightarrow> if truthy x then Inl AttributeError else Inr False
      | (x, y) \<Rightarrow> Inr (scalar_eq x y))"
| "list_eq [] ys = Inr True"
| "list_eq (x # xs) [] = Inr False"
| "list_eq (x # xs) (y # ys) =
     (case py_eq x y of
        Inl e \<Rightarrow> Inl e
      | Inr t \<Rightarrow> if t then list_eq xs ys else Inr False)"
| "dict_eq [] d2 = Inr True"
| "dict_eq (kv # d) d2 =
     (case map_of d2 (fst kv) of
        None \<Rightarrow> Inr False
      | Some w \<Rightarrow>
          (case py_eq (snd kv) w of
             Inl e \<Rightarrow> Inl e
           | Inr t \<Rightarrow> if t then dict_eq d d2 else Inr False))"
  by pat_completeness auto
termination
proof (relation
    "(\<lambda>x. case x of
            Inl (a, b) \<Rightarrow> depth a + depth b
          | Inr (Inl (xs, ys)) \<Rightarrow> Suc (depths xs + depths ys)
          | Inr (Inr (d, e)) \<Rightarrow> Suc (depths_items d + depths_items e))
     <*mlex*>
     measure (\<lambda>x. case x of
                Inl (a, b) \<Rightarrow> 0
              | Inr (Inl (xs, ys)) \<Rightarrow> Suc (length xs)
              | Inr (Inr (d, e)) \<Rightarrow> Suc (length d))", goal_cases)
  case 1
  then show ?case by (simp add: wf_mlex)
next
  case (2 a b x y xs ys)
  then show ?case by (auto simp: mlex_iff)
next
  case (3 a b x y d1 d2)
  then show ?case by (auto simp: mlex_iff)
next
  case (4 a b x y c1 a1 c2 a2)
  then show ?case
    using depths_items_AsDict_loop[of "map fst (param_defaults c1)" a1]
      depths_items_AsDict_loop[of "map fst (param_defaults c2)" a2]
    by (auto simp: AsDict_def mlex_iff)
next
  case (5 x xs y ys)
  then show ?case by (simp add: mlex_iff max_def)
next
  case (6 x xs y ys b)
  then show ?case by (simp add: mlex_iff max_def)
next
  case (7 kv d d2 w)
  then show ?case using depths_items_map_of[of d2 "fst kv" w] by (simp add: mlex_iff max_def)
next
  case (8 kv d d2 w b)
  then show ?case by (simp add: mlex_iff max_def)
qed

subsection \<open>Construction\<close>

text \<open>
  \<open>key in d\<close> for a dictionary, and the loop of every \<open>__init__\<close>:
  \<open>for (param, default) in self.param_defaults.items():
  setattr(self, param, kwargs.get(param, default))\<close>.
\<close>

definition has_key :: "pydict \<Rightarrow> string \<Rightarrow> bool" where
  "has_key d key = (map_of d key \<noteq> None)"

fun init_loop :: "pydict \<Rightarrow> pydict \<Rightarrow> pydict \<Rightarrow> pydict" where
  "init_loop [] kwargs attrs = attrs"
| "init_loop (pd # ps) kwargs attrs =
     init_loop ps kwargs (setattr attrs (fst pd) (dict_get kwargs (fst pd) (snd pd)))"

text \<open>
  \<open>param in container\<close>, where \<open>param\<close> is a string: a list is searched with \<open>==\<close>, a
  dictionary is asked for the key, a string for the substring, and any other value is not
  iterable.
\<close>

fun list_contains :: "pyval list \<Rightarrow> pyval \<Rightarrow> py_error + bool" where
  "list_contains [] v = Inr False"
| "list_contains (x # xs) v =
     (case py_eq x v of
        Inl e \<Rightarrow> Inl e
      | Inr t \<Rightarrow> if t then Inr True else list_contains xs v)"

definition substring :: "string \<Rightarrow> string \<Rightarrow> bool" where
  "substring p s = list_ex (\<lambda>i. take (length p) (drop i s) = p) [0..<Suc (length s)]"

fun py_contains :: "pyval \<Rightarrow> string \<Rightarrow> py_error + bool" where
  "py_contains (PList xs) param = list_contains xs (PStr param)"
| "py_contains (PDict d) param = Inr (has_key d param)"
| "py_contains (PStr s) param = Inr (substring param s)"
| "py_contains v param = Inl TypeError"

text \<open>
  The class attribute \<open>UserStatus.connections\<close>, by its keys, and the loop
  \<open>for param in self.connections: if param in kwargs['connections']:
  setattr(self, param, True)\<close>.
\<close>

definition connections :: "string list" where
  "connections = [''following'', ''followed_by'', ''following_received'',
                  ''following_requested'', ''blocking'', ''muting'']"

fun connections_loop :: "string list \<Rightarrow> pyval \<Rightarrow> pydict \<Rightarrow> py_error + pydict" where
  "connections_loop [] container attrs = Inr attrs"
| "connections_loop (param # ps) container attrs =
     (case py_contains container param of
        Inl e \<Rightarrow> Inl e
      | Inr t \<Rightarrow>
          connections_loop ps container (if t then setattr attrs param (PBool True) else attrs))"

text \<open>\<open>for key, val in kwargs.items(): data[key] = val\<close>\<close>

fun merge_kwargs :: "pydict \<Rightarrow> pydict \<Rightarrow> pydict" where
  "merge_kwargs data [] = data"
| "merge_kwargs data (kv # kwargs) = merge_kwargs (setattr data (fst kv) (snd kv)) kwargs"

text \<open>
  \<open>new cls kwargs\<close> is the call \<open>cls(**kwargs)\<close> and \<open>NewFromJsonDict cls data kwargs\<close> the
  class method of \<open>TwitterModel\<close>, \<open>cls.NewFromJsonDict(data, **kwargs)\<close>. A keyword that
  is also a positional parameter of the callee is a \<open>TypeError\<close>, and so is \<open>**data\<close> for a
  \<open>data\<close> that is not a mapping, or an item assignment with a string key on it. \<open>List\<close>
  builds its \<open>user\<close> with \<open>User.NewFromJsonDict\<close>; \<open>UserStatus\<close> sets the connections that
  occur in \<open>kwargs['connections']\<close>. \<open>Status\<close> overrides \<open>NewFromJsonDict\<close> with a static
  method that prepares further keywords and then calls this one; that method is not
  part of the model, so \<open>NewFromJsonDict Status\<close> is the call
  \<open>super(Status, Status).NewFromJsonDict\<close>. The assignment \<open>data[key] = val\<close> changes the
  caller's dictionary; only the instance is returned here.
\<close>

function new :: "model_class \<Rightarrow> pydict \<Rightarrow> py_error + pyval"
  and NewFromJsonDict :: "model_class \<Rightarrow> pyval \<Rightarrow> pydict \<Rightarrow> py_error + pyval" where
  "new cls kwargs =
     (if has_key kwargs ''self'' then Inl TypeError
      else if cls = List then
        (if has_key kwargs ''user'' then
           (case NewFromJsonDict User (dict_get kwargs ''user'' PNone) [] of
              Inl e \<Rightarrow> Inl e
            | Inr user \<Rightarrow>
                Inr (PObj cls (setattr (init_loop (param_defaults cls) kwargs []) ''user'' user)))
         else Inr (PObj cls (init_loop (param_defaults cls) kwargs [])))
      else if cls = UserStatus then
        (if has_key kwargs ''connections'' then
           (case connections_loop connections (dict_get kwargs ''connections'' PNone)
                   (init_loop (param_defaults cls) kwargs []) of
              Inl e \<Rightarrow> Inl e
            | Inr attrs \<Rightarrow> Inr (PObj cls attrs))
         else Inr (PObj cls (init_loop (param_defaults cls) kwargs [])))
      else Inr (PObj cls (init_loop (param_defaults cls) kwargs [])))"
| "NewFromJsonDict cls data kwargs =
     (if has_key kwargs ''cls'' \<or> has_key kwargs ''data'' then Inl TypeError
      else case data of
        PDict d \<Rightarrow> new cls (merge_kwargs d kwargs)
      | _ \<Rightarrow> Inl TypeError)"
  by pat_completeness auto
termination
proof (relation
    "measure (\<lambda>x. case x of
                Inl (cls, kwargs) \<Rightarrow> if cls = List then 2 else 0
              | Inr (cls, data, kwargs) \<Rightarrow> if cls = List then 3 else 1)", goal_cases)
  case 1
  then show ?case by simp
next
  case (2 cls kwargs)
  then show ?case by simp
next
  case (3 cls data kwargs d)
  then show ?case by simp
qed

subsection \<open>\<open>__eq__\<close>, \<open>__ne__\<close> and \<open>AsJsonString\<close>\<close>

text \<open>
  \<open>model_eq cls attrs other\<close> is \<open>self.__eq__(other)\<close> for the instance \<open>self\<close> of class
  \<open>cls\<close> with the attributes \<open>attrs\<close>: the value of
  \<open>other and self.AsDict() == other.AsDict()\<close>. \<open>model_ne\<close> is \<open>__ne__\<close>:
  \<open>not self.__eq__(other)\<close>.
\<close>

definition model_eq :: "model_class \<Rightarrow> pydict \<Rightarrow> pyval \<Rightarrow> py_error + pyval" where
  "model_eq cls attrs other =
     (if \<not> truthy other then Inr other
      else case other of
        PObj c2 a2 \<Rightarrow>
          (case py_eq (PDict (AsDict cls attrs)) (PDict (AsDict c2 a2)) of
             Inl e \<Rightarrow> Inl e
           | Inr t \<Rightarrow> Inr (PBool t))
      | _ \<Rightarrow> Inl AttributeError)"

definition model_ne :: "model_class \<Rightarrow> pydict \<Rightarrow> pyval \<Rightarrow> py_error + pyval" where
  "model_ne cls attrs other =
     (case model_eq cls attrs other of
        Inl e \<Rightarrow> Inl e
      | Inr v \<Rightarrow> Inr (PBool (\<not> truthy v)))"

text \<open>
  \<open>json.dumps(value, sort_keys=True)\<close> with the default separators and \<open>ensure_ascii\<close>:
  integers in decimal, strings between double quotes with the escapes of the encoder,
  the items of a dictionary in the order of their keys. An instance of a model class is
  not serializable.
\<close>

function digits :: "nat \<Rightarrow> string" where
  "digits n =
     (if n < 10 then [''0123456789'' ! n]
      else digits (n div 10) @ [''0123456789'' ! (n mod 10)])"
  by pat_completeness auto
termination
  by (relation "measure id") auto

definition show_int :: "int \<Rightarrow> string" where
  "show_int i = (if i < 0 then CHR ''-'' # digits (nat (- i)) else digits (nat i))"

definition escape_char :: "char \<Rightarrow> string" where
  "escape_char c =
     (if c = CHR 0x22 then [CHR 0x5C, CHR 0x22]
      else if c = CHR 0x5C then [CHR 0x5C, CHR 0x5C]
      else if c = CHR 0x0A then [CHR 0x5C, CHR ''n'']
      else if c = CHR 0x0D then [CHR 0x5C, CHR ''r'']
      else if c = CHR 0x09 then [CHR 0x5C, CHR ''t'']
      else if c = CHR 0x08 then [CHR 0x5C, CHR ''b'']
      else if c = CHR 0x0C then [CHR 0x5C, CHR ''f'']
      else if (of_char c :: nat) < 32 \<or> (of_char c :: nat) > 126
        then [CHR 0x5C, CHR ''u'', CHR ''0'', CHR ''0'',
              ''0123456789abcdef'' ! ((of_char c :: nat) div 16),
              ''0123456789abcdef'' ! ((of_char c :: nat) mod 16)]
      else [c])"

definition quote :: "string \<Rightarrow> string" where
  "quote s = CHR 0x22 # concat (map escape_char s) @ [CHR 0x22]"

fun join :: "string \<Rightarrow> string list \<Rightarrow> string" where
  "join sep [] = []"
| "join sep [x] = x"
| "join sep (x # y # ys) = x @ sep @ join sep (y # ys)"

lemma depths_items_Max: "depths_items d = Max (insert 0 ((\<lambda>kv. depth (snd kv)) ` set d))"
proof (induction d)
  case Nil
  then show ?case by simp
next
  case (Cons kv d)
  have "Max (insert (depth (snd kv)) (insert 0 ((\<lambda>kv. depth (snd kv)) ` set d)))
          = max (depth (snd kv)) (Max (insert 0 ((\<lambda>kv. depth (snd kv)) ` set d)))"
    by (rule Max_insert) simp_all
  with Cons show ?case by (simp add: insert_commute)
qed

lemma depths_items_sort_key: "depths_items (sort_key fst d) = depths_items d"
  by (simp add: depths_items_Max)

function json_dumps :: "pyval \<Rightarrow> py_error + string"
  and dumps_list :: "pyval list \<Rightarrow> py_error + string list"
  and dumps_items :: "pydict \<Rightarrow> py_error + string list" where
  "json_dumps PNone = Inr ''null''"
| "json_dumps (PBool b) = Inr (if b then ''true'' else ''false'')"
| "json_dumps (PInt i) = Inr (show_int i)"
| "json_dumps (PStr s) = Inr (quote s)"
| "json_dumps (PList xs) =
     (case dumps_list xs of
        Inl e \<Rightarrow> Inl e
      | Inr ss \<Rightarrow> Inr (''['' @ join '', '' ss @ '']''))"
| "json_dumps (PDict d) =
     (case dumps_items (sort_key fst d) of
        Inl e \<Rightarrow> Inl e
      | Inr ss \<Rightarrow> Inr (''{'' @ join '', '' ss @ ''}''))"
| "json_dumps (PObj c a) = Inl TypeError"
| "dumps_list [] = Inr []"
| "dumps_list (x # xs) =
     (case json_dumps x of
        Inl e \<Rightarrow> Inl e
      | Inr s \<Rightarrow> (case dumps_list xs of Inl e \<Rightarrow> Inl e | Inr ss \<Rightarrow> Inr (s # ss)))"
| "dumps_items [] = Inr []"
| "dumps_items (kv # d) =
     (case json_dumps (snd kv) of
        Inl e \<Rightarrow> Inl e
      | Inr s \<Rightarrow>
          (case dumps_items d of
             Inl e \<Rightarrow> Inl e
           | Inr ss \<Rightarrow> Inr ((quote (fst kv) @ '': '' @ s) # ss)))"
  by pat_completeness auto
termination
proof (relation
    "(\<lambda>x. case x of
            Inl v \<Rightarrow> 2 * depth v
          | Inr (Inl xs) \<Rightarrow> Suc (2 * depths xs)
          | Inr (Inr d) \<Rightarrow> Suc (2 * depths_items d))
     <*mlex*>
     measure (\<lambda>x. case x of
                Inl v \<Rightarrow> 0
              | Inr (Inl xs) \<Rightarrow> length xs
              | Inr (Inr d) \<Rightarrow> length d)", goal_cases)
  case 1
  then show ?case by (simp add: wf_mlex)
next
  case (2 xs)
  then show ?case by (simp add: mlex_iff)
next
  case (3 d)
  then show ?case by (simp add: mlex_iff depths_items_sort_key)
next
  case (4 x xs)
  then show ?case by (simp add: mlex_iff max_def)
next
  case (5 x xs s)
  then show ?case by (simp add: mlex_iff max_def)
next
  case (6 kv d)
  then show ?case by (simp add: mlex_iff max_def)
next
  case (7 kv d s)
  then show ?case by (simp add: mlex_iff max_def)
qed

definition AsJsonString :: "model_class \<Rightarrow> pydict \<Rightarrow> py_error + string" where
  "AsJsonString cls attrs = json_dumps (PDict (AsDict cls attrs))"

subsection \<open>Notions for the statements\<close>

text \<open>
  \<open>entry v\<close> is what the loop of \<open>AsDict\<close> enters for an attribute of value \<open>v\<close>, if it
  enters anything. A scalar is \<open>None\<close>, a Boolean, an integer or a string. A value is well
  formed when the keys of every dictionary in it are distinct, as they are in Python.
\<close>

definition entry :: "pyval \<Rightarrow> pyval option" where
  "entry v =
     (case v of
        PObj c a \<Rightarrow> Some (PDict (AsDict c a))
      | _ \<Rightarrow> if truthy v then Some v else None)"

fun is_instance :: "pyval \<Rightarrow> bool" where
  "is_instance (PObj c a) = True"
| "is_instance v = False"

fun is_scalar :: "pyval \<Rightarrow> bool" where
  "is_scalar (PList xs) = False"
| "is_scalar (PDict d) = False"
| "is_scalar (PObj c a) = False"
| "is_scalar v = True"

definition flat :: "pydict \<Rightarrow> bool" where
  "flat attrs = list_all (\<lambda>kv. is_scalar (snd kv)) attrs"

fun well_formed :: "pyval \<Rightarrow> bool"
  and well_formed_list :: "pyval list \<Rightarrow> bool"
  and well_formed_items :: "pydict \<Rightarrow> bool" where
  "well_formed PNone = True"
| "well_formed (PBool b) = True"
| "well_formed (PInt i) = True"
| "well_formed (PStr s) = True"
| "well_formed (PList xs) = well_formed_list xs"
| "well_formed (PDict d) = (distinct (map fst d) \<and> well_formed_items d)"
| "well_formed (PObj c a) = well_formed_items a"
| "well_formed_list [] = True"
| "well_formed_list (x # xs) = (well_formed x \<and> well_formed_list xs)"
| "well_formed_items [] = True"
| "well_formed_items (kv # d) = (well_formed (snd kv) \<and> well_formed_items d)"


section \<open>The estimator: what is proved\<close>

subsection \<open>Subjects of the scenarios\<close>

lemma text_example_url:
  "cps ''http://example.com/path'' =
     [104, 116, 116, 112, 58, 47, 47, 101, 120, 97, 109, 112, 108, 101, 46, 99, 111, 109, 47,
      112, 97, 116, 104]"
  by (simp add: cps_def)

lemma text_plain:
  "cps ''plain text, no links'' =
     [112, 108, 97, 105, 110, 32, 116, 101, 120, 116, 44, 32, 110, 111, 32, 108, 105, 110,
      107, 115]"
  by (simp add: cps_def)

lemma text_see_www:
  "cps ''see www.example.com'' =
     [115, 101, 101, 32, 119, 119, 119, 46, 101, 120, 97, 109, 112, 108, 101, 46, 99, 111,
      109]"
  by (simp add: cps_def)

lemma text_t_co: "cps ''t.co'' = [116, 46, 99, 111]"
  by (simp add: cps_def)

lemma text_no_url: "cps ''no url here'' = [110, 111, 32, 117, 114, 108, 32, 104, 101, 114, 101]"
  by (simp add: cps_def)

lemma text_hello: "cps ''hello world'' = [104, 101, 108, 108, 111, 32, 119, 111, 114, 108, 100]"
  by (simp add: cps_def)

lemma findall_example_url:
  "findall U URL_REGEXP (cps ''http://example.com/path'') = [cps ''http://example.com/path'']"
  unfolding text_example_url by (simp add: run_search)

lemma findall_plain: "findall U URL_REGEXP (cps ''plain text, no links'') = []"
  unfolding text_plain by (simp add: run_search)

lemma findall_see_www:
  "findall U URL_REGEXP (cps ''see www.example.com'') = [cps ''www.example.com'']"
  unfolding text_see_www by (simp add: run_search cps_def)

lemma findall_t_co: "findall U URL_REGEXP (cps ''t.co'') = [cps ''t.co'']"
  unfolding text_t_co by (simp add: run_search)

lemma findall_no_url: "findall U URL_REGEXP (cps ''no url here'') = []"
  unfolding text_no_url by (simp add: run_search)

lemma findall_hello: "findall U URL_REGEXP (cps ''hello world'') = []"
  unfolding text_hello by (simp add: run_search)

lemma findall_empty: "findall U URL_REGEXP [] = []"
  by (simp add: run_search)

lemma findall_Nil_iff:
  "findall U r s = [] \<longleftrightarrow> \<not> matches_somewhere U r None s"
  using scan_nonempty_iff[of U r None s] by (auto simp: findall_def)

lemma length_cps: "length (cps s) = length s"
  by (simp add: cps_def)

subsection \<open>Claims\<close>

text \<open>
  C3. For every status and every \<open>short_url_length\<close>, \<open>calc_expected_status_length\<close>
  returns the length of the status, minus the sum of the lengths of the matches of the URL
  pattern, plus \<open>short_url_length\<close> times the number of matches. The matches are
  non-overlapping pieces of the status, in its order: the status is the matches woven with
  the text before, between and after them. When the pattern matches nowhere the result is
  the length of the status, and the empty status yields 0.
\<close>

theorem calc_expected_status_length_formula:
  "calc_expected_status_length U status n =
       int (length status)
       - int (sum_list (map length (findall U URL_REGEXP status)))
       + n * int (length (findall U URL_REGEXP status))
   \<and> (\<exists>gaps. length gaps = Suc (length (findall U URL_REGEXP status))
            \<and> weave gaps (findall U URL_REGEXP status) = status)
   \<and> (\<not> matches_somewhere U URL_REGEXP None status
        \<longrightarrow> calc_expected_status_length U status n = int (length status))
   \<and> calc_expected_status_length U [] n = 0"
proof -
  have formula: "calc_expected_status_length U s n =
       int (length s) - int (sum_list (map length (findall U URL_REGEXP s)))
       + n * int (length (findall U URL_REGEXP s))" for s
    by (cases "findall U URL_REGEXP s")
       (simp_all add: calc_expected_status_length_def Let_def length_concat_sum)
  have pieces: "\<exists>gaps. length gaps = Suc (length (findall U URL_REGEXP status))
            \<and> weave gaps (findall U URL_REGEXP status) = status"
    unfolding findall_def by (rule scan_weave)
  have nowhere: "calc_expected_status_length U status n = int (length status)"
    if "\<not> matches_somewhere U URL_REGEXP None status"
  proof -
    from that have "findall U URL_REGEXP status = []" by (simp add: findall_Nil_iff)
    then show ?thesis by (simp add: formula)
  qed
  have empty: "calc_expected_status_length U [] n = 0"
    by (simp add: formula findall_empty)
  from formula[of status] pieces nowhere empty show ?thesis by blast
qed

theorem calc_expected_status_length_formula_witness:
  "\<not> matches_somewhere ascii_db URL_REGEXP None (cps ''no url here'')
   \<and> calc_expected_status_length ascii_db (cps ''no url here'') 23 = 11"
proof -
  have h: "\<not> matches_somewhere ascii_db URL_REGEXP None (cps ''no url here'')"
    using findall_no_url[of ascii_db] by (simp add: findall_Nil_iff)
  from calc_expected_status_length_formula[of ascii_db "cps ''no url here''" 23] h
  have "calc_expected_status_length ascii_db (cps ''no url here'') 23
          = int (length (cps ''no url here''))" by blast
  with h show ?thesis by (simp add: length_cps)
qed

text \<open>
  C6. For the status \<open>http://example.com/path\<close> and a short URL length of 23 the result
  is 23: the pattern matches once, and the match is the whole status.
\<close>

theorem calc_expected_status_length_single_url:
  "calc_expected_status_length U (cps ''http://example.com/path'') 23 = 23
   \<and> findall U URL_REGEXP (cps ''http://example.com/path'') = [cps ''http://example.com/path'']"
  by (simp add: calc_expected_status_length_def Let_def findall_example_url length_cps)

text \<open>
  C7. \<open>is_url\<close> is true exactly when the pattern matches at some position of the text. It
  is false on \<open>plain text, no links\<close> and true on \<open>see www.example.com\<close>.
\<close>

theorem is_url_iff_match:
  "(is_url U s \<longleftrightarrow> matches_somewhere U URL_REGEXP None s)
   \<and> \<not> is_url U (cps ''plain text, no links'')
   \<and> is_url U (cps ''see www.example.com'')"
proof -
  have "is_url U s \<longleftrightarrow> matches_somewhere U URL_REGEXP None s"
    using findall_Nil_iff[of U URL_REGEXP s] by (simp add: is_url_def)
  moreover have "\<not> is_url U (cps ''plain text, no links'')"
    by (simp add: is_url_def findall_plain)
  moreover have "is_url U (cps ''see www.example.com'')"
    by (simp add: is_url_def findall_see_www)
  ultimately show ?thesis by blast
qed

text \<open>
  C8. A run of \<open>calc_expected_status_length\<close> or of \<open>is_url\<close> on a string comes to its
  end and returns a value; it raises nothing. With the depth \<open>run_bound URL_REGEXP s\<close>, or
  any greater one, the backtracking search and the scan are not cut off, and the run
  returns the value of the function. In the worst case, when the pattern matches nowhere,
  the length comes back unchanged. Two runs on the same input that come to their end
  return the same value, however deep each was allowed to go: the functions read their
  arguments and the constants of the module (and \<open>U\<close>, the Unicode database of the
  interpreter) and write nothing, so there is no state that one call could leave to the
  next.
\<close>

theorem estimator_runs_return:
  "(run_bound URL_REGEXP s \<le> k \<longrightarrow>
       calc_expected_status_length_run k U (Str s) n
         = Some (Inr (calc_expected_status_length U s n))
     \<and> is_url_run k U (Str s) = Some (Inr (is_url U s)))
   \<and> (run_bound URL_REGEXP s \<le> k \<longrightarrow> \<not> matches_somewhere U URL_REGEXP None s \<longrightarrow>
        calc_expected_status_length_run k U (Str s) n = Some (Inr (int (length s))))
   \<and> (calc_expected_status_length_run k1 U (Str s) n = Some r1 \<longrightarrow>
      calc_expected_status_length_run k2 U (Str s) n = Some r2 \<longrightarrow> r1 = r2)
   \<and> (is_url_run k1 U (Str s) = Some b1 \<longrightarrow> is_url_run k2 U (Str s) = Some b2 \<longrightarrow> b1 = b2)"
proof (intro conjI impI)
  assume k: "run_bound URL_REGEXP s \<le> k"
  from findall_fuel_enough[OF k]
  show "calc_expected_status_length_run k U (Str s) n
          = Some (Inr (calc_expected_status_length U s n))"
    by (simp add: calc_expected_status_length_def Let_def)
  from findall_fuel_enough[OF k]
  show "is_url_run k U (Str s) = Some (Inr (is_url U s))"
    by (simp add: is_url_def)
next
  assume k: "run_bound URL_REGEXP s \<le> k"
    and no: "\<not> matches_somewhere U URL_REGEXP None s"
  from no have "findall U URL_REGEXP s = []" by (simp add: findall_Nil_iff)
  with findall_fuel_enough[OF k, of U]
  show "calc_expected_status_length_run k U (Str s) n = Some (Inr (int (length s)))"
    by simp
next
  assume 1: "calc_expected_status_length_run k1 U (Str s) n = Some r1"
    and 2: "calc_expected_status_length_run k2 U (Str s) n = Some r2"
  from 1 obtain m1 where m1: "findall_fuel k1 U URL_REGEXP s = Some m1"
    by (auto split: option.splits)
  from 2 obtain m2 where m2: "findall_fuel k2 U URL_REGEXP s = Some m2"
    by (auto split: option.splits)
  from findall_fuel_sound[OF m1] findall_fuel_sound[OF m2] have "m1 = m2" by simp
  with 1 2 m1 m2 show "r1 = r2" by simp
next
  assume 1: "is_url_run k1 U (Str s) = Some b1"
    and 2: "is_url_run k2 U (Str s) = Some b2"
  from 1 obtain m1 where m1: "findall_fuel k1 U URL_REGEXP s = Some m1"
    by (auto split: option.splits)
  from 2 obtain m2 where m2: "findall_fuel k2 U URL_REGEXP s = Some m2"
    by (auto split: option.splits)
  from findall_fuel_sound[OF m1] findall_fuel_sound[OF m2] have "m1 = m2" by simp
  with 1 2 m1 m2 show "b1 = b2" by simp
qed

theorem estimator_runs_return_witness:
  "calc_expected_status_length_run (run_bound URL_REGEXP (cps ''hello world'')) ascii_db
       (Str (cps ''hello world'')) 23 = Some (Inr 11)
   \<and> is_url_run (run_bound URL_REGEXP (cps ''hello world'')) ascii_db
       (Str (cps ''hello world'')) = Some (Inr False)
   \<and> \<not> matches_somewhere ascii_db URL_REGEXP None (cps ''hello world'')
   \<and> calc_expected_status_length_run (run_bound URL_REGEXP (cps ''t.co'')) ascii_db
       (Str (cps ''t.co'')) 23 = Some (Inr 23)
   \<and> is_url_run (run_bound URL_REGEXP (cps ''t.co'')) ascii_db (Str (cps ''t.co''))
       = Some (Inr True)
   \<and> calc_expected_status_length_run (Suc (run_bound URL_REGEXP (cps ''t.co''))) ascii_db
       (Str (cps ''t.co'')) 23 = Some (Inr 23)"
proof -
  let ?h = "cps ''hello world''" and ?t = "cps ''t.co''"
  note r = estimator_runs_return
  have no: "\<not> matches_somewhere ascii_db URL_REGEXP None ?h"
    using findall_hello[of ascii_db] by (simp add: findall_Nil_iff)
  have 1: "calc_expected_status_length_run (run_bound URL_REGEXP ?h) ascii_db (Str ?h) 23
             = Some (Inr 11)"
    using r[of ?h "run_bound URL_REGEXP ?h" ascii_db 23, THEN conjunct2, THEN conjunct1] no
    by (simp add: length_cps)
  have 2: "is_url_run (run_bound URL_REGEXP ?h) ascii_db (Str ?h) = Some (Inr False)"
    using r[of ?h "run_bound URL_REGEXP ?h" ascii_db 23, THEN conjunct1]
    by (simp add: is_url_def findall_hello)
  have 3: "calc_expected_status_length_run (run_bound URL_REGEXP ?t) ascii_db (Str ?t) 23
             = Some (Inr 23)"
    using r[of ?t "run_bound URL_REGEXP ?t" ascii_db 23, THEN conjunct1]
    by (simp add: calc_expected_status_length_def Let_def findall_t_co length_cps)
  have 4: "is_url_run (run_bound URL_REGEXP ?t) ascii_db (Str ?t) = Some (Inr True)"
    using r[of ?t "run_bound URL_REGEXP ?t" ascii_db 23, THEN conjunct1]
    by (simp add: is_url_def findall_t_co)
  have "\<exists>v. calc_expected_status_length_run (Suc (run_bound URL_REGEXP ?t)) ascii_db (Str ?t) 23
          = Some v"
    using r[of ?t "Suc (run_bound URL_REGEXP ?t)" ascii_db 23, THEN conjunct1] by simp
  then obtain v where
    v: "calc_expected_status_length_run (Suc (run_bound URL_REGEXP ?t)) ascii_db (Str ?t) 23
          = Some v" ..
  from r[of ?t _ ascii_db 23 "Suc (run_bound URL_REGEXP ?t)" v "run_bound URL_REGEXP ?t" "Inr 23",
         THEN conjunct2, THEN conjunct2, THEN conjunct1] v 3
  have "v = Inr 23" by simp
  with v have 5: "calc_expected_status_length_run (Suc (run_bound URL_REGEXP ?t)) ascii_db
                    (Str ?t) 23 = Some (Inr 23)" by simp
  from 1 2 no 3 4 5 show ?thesis by blast
qed

text \<open>
  C9. The estimate is not bounded by the number of characters: the status \<open>t.co\<close> is one
  match of four characters, fewer than the short URL length 23, and its estimate 23 is
  greater than its length.
\<close>

theorem calc_expected_status_length_can_exceed_length:
  "findall U URL_REGEXP (cps ''t.co'') = [cps ''t.co'']
   \<and> int (length (cps ''t.co'')) < 23
   \<and> int (length (cps ''t.co'')) < calc_expected_status_length U (cps ''t.co'') 23"
  by (simp add: calc_expected_status_length_def Let_def findall_t_co length_cps)

section \<open>The media resolver: what is proved\<close>


text \<open>
  What the resolver returns for a local path: the name and the size are as specified, and
  the stream is the file that the \<open>with\<close> block has closed, its position still at the end.
\<close>

lemma parse_media_file_local_path:
  assumes "\<not> startswith p ''http''"
      and "parse_media_file env (StrRef p) = Inr (d, filename, file_size, media_type)"
  shows "\<exists>content. files env (realpath env p) = Some (Regular content)
           \<and> filename = basename p
           \<and> file_size = Some (int (length content))
           \<and> d = File \<lparr>f_name = Some (realpath env p), f_data = content,
                         f_pos = length content, f_closed = True, f_seekable = True\<rparr>"
  using assms
  by (auto simp: parse_media_file_def open_passed_media_def open_rb_def seek_end_def
      tell_def close_def try_seek_start_def seek_start_def Let_def
      split: option.splits sum.splits if_splits bool.splits fs_entry.splits)

text \<open>
  C1. The scenario of the specification: a local file \<open>photo.jpg\<close> of 4 MiB. The call
  succeeds with the file name \<open>photo.jpg\<close>, the size \<open>4 * 1048576\<close> and the type
  \<open>image/jpeg\<close>; the stream it returns is closed, its position is the end of the file, and
  reading from it raises \<open>ValueError\<close>.
\<close>

theorem parse_media_file_returns_closed_file:
  "parse_media_file (scenario_env [(''/home/photo.jpg'', replicate (4 * 1048576) 0)])
       (StrRef ''photo.jpg'')
     = Inr (File \<lparr>f_name = Some ''/home/photo.jpg'', f_data = replicate (4 * 1048576) 0,
                  f_pos = 4 * 1048576, f_closed = True, f_seekable = True\<rparr>,
            ''photo.jpg'', Some (4 * 1048576), Some ''image/jpeg'')
   \<and> read \<lparr>f_name = Some ''/home/photo.jpg'', f_data = replicate (4 * 1048576) 0,
            f_pos = 4 * 1048576, f_closed = True, f_seekable = True\<rparr> = Inl ValueError"
  by (simp add: parse_media_file_def open_passed_media_def open_rb_def seek_end_def
      tell_def close_def try_seek_start_def seek_start_def Let_def scenario_env_def
      startswith_def basename_def and_greater_def in_formats_def img_formats_def
      video_formats_def read_def)









section \<open>The models: what is proved\<close>

subsection \<open>Construction and \<open>AsDict\<close>\<close>

lemma distinct_param_defaults: "distinct (map fst (param_defaults cls))"
  by (cases cls) simp_all

lemma param_defaults_falsy: "(k, d) \<in> set (param_defaults cls) \<Longrightarrow> d = PNone \<or> d = PBool False"
  by (cases cls) auto

lemma map_of_setattr:
  "map_of (setattr attrs key v) k = (if k = key then Some v else map_of attrs k)"
  by (induction attrs key v rule: setattr.induct) auto

lemma map_of_init_loop:
  "distinct (map fst ps) \<Longrightarrow>
     map_of (init_loop ps kwargs attrs) k =
       (case map_of ps k of Some dflt \<Rightarrow> Some (dict_get kwargs k dflt) | None \<Rightarrow> map_of attrs k)"
proof (induction ps arbitrary: attrs)
  case Nil
  then show ?case by simp
next
  case (Cons pd ps)
  then show ?case
    by (cases pd) (auto simp: map_of_setattr map_of_eq_None_iff image_iff split: option.splits)
qed

lemma AsDict_loop_entries:
  "AsDict_loop keys attrs =
     concat (map (\<lambda>k. case entry (getattr attrs k) of None \<Rightarrow> [] | Some v \<Rightarrow> [(k, v)]) keys)"
  by (induction keys) (auto simp: entry_def AsDict_def split: pyval.splits)

lemma map_of_entries:
  "map_of (concat (map (\<lambda>k. case f k of None \<Rightarrow> [] | Some v \<Rightarrow> [(k, v)]) keys)) k =
     (if k \<in> set keys then f k else None)"
  by (induction keys) (auto split: option.splits)

lemma map_of_AsDict:
  "map_of (AsDict cls attrs) k =
     (if k \<in> set (field_names cls) then entry (getattr attrs k) else None)"
  unfolding AsDict_def AsDict_loop_entries field_names_def
  by (rule map_of_entries[where f = "\<lambda>k. entry (getattr attrs k)"])


lemma entry_getattr_init_loop:
  assumes "k \<in> set (field_names cls)"
  shows "entry (getattr (init_loop (param_defaults cls) kwargs []) k) =
           (case map_of kwargs k of None \<Rightarrow> None | Some v \<Rightarrow> entry v)"
proof -
  from assms have "map_of (param_defaults cls) k \<noteq> None"
    by (simp add: field_names_def map_of_eq_None_iff)
  then obtain dflt where d: "map_of (param_defaults cls) k = Some dflt" by auto
  from map_of_SomeD[OF d] param_defaults_falsy have "dflt = PNone \<or> dflt = PBool False"
    by blast
  then have "entry dflt = None" by (auto simp: entry_def)
  with d show ?thesis
    by (simp add: getattr_def dict_get_def map_of_init_loop[OF distinct_param_defaults]
        split: option.splits)
qed

lemma entry_plain: "truthy v \<Longrightarrow> \<not> is_instance v \<Longrightarrow> entry v = Some v"
  by (cases v) (simp_all add: entry_def)

lemma py_eq_scalar: "is_scalar a \<Longrightarrow> is_scalar b \<Longrightarrow> py_eq a b = Inr (scalar_eq a b)"
  by (cases a; cases b) simp_all

lemma py_eq_PList:
  "py_eq (PList xs) (PList ys) = (if length xs = length ys then list_eq xs ys else Inr False)"
  by simp

lemma py_eq_PDict:
  "py_eq (PDict d1) (PDict d2) = (if length d1 = length d2 then dict_eq d1 d2 else Inr False)"
  by simp

lemma py_eq_PObj:
  "py_eq (PObj c1 a1) (PObj c2 a2) =
     (if length (AsDict c1 a1) = length (AsDict c2 a2)
      then dict_eq (AsDict c1 a1) (AsDict c2 a2) else Inr False)"
  by simp

declare py_eq.simps [simp del]

lemma scalar_eq_refl: "is_scalar a \<Longrightarrow> scalar_eq a a"
  by (cases a) simp_all

lemma well_formed_items_map_of:
  "well_formed_items d \<Longrightarrow> map_of d k = Some v \<Longrightarrow> well_formed v"
  by (induction d) (auto split: if_splits)

lemma well_formed_items_append:
  "well_formed_items (d @ e) = (well_formed_items d \<and> well_formed_items e)"
  by (induction d) auto

lemma map_fst_AsDict_loop:
  "map fst (AsDict_loop keys attrs) = filter (\<lambda>k. entry (getattr attrs k) \<noteq> None) keys"
  unfolding AsDict_loop_entries by (induction keys) (auto split: option.splits)

lemma distinct_AsDict_loop: "distinct keys \<Longrightarrow> distinct (map fst (AsDict_loop keys attrs))"
  by (simp add: map_fst_AsDict_loop)

lemma distinct_AsDict: "distinct (map fst (AsDict cls attrs))"
  unfolding AsDict_def by (rule distinct_AsDict_loop) (rule distinct_param_defaults)

lemma well_formed_items_AsDict_loop:
  "well_formed_items attrs \<Longrightarrow> well_formed_items (AsDict_loop keys attrs)"
proof (induction keys attrs rule: AsDict_loop.induct)
  case (1 attrs)
  then show ?case by simp
next
  case (2 key keys attrs)
  from 2 have rest: "well_formed_items (AsDict_loop keys attrs)" by simp
  show ?case
  proof (cases "map_of attrs key")
    case None
    with rest show ?thesis by (simp add: getattr_def dict_get_def)
  next
    case (Some v)
    from well_formed_items_map_of[OF "2.prems" Some] have wv: "well_formed v" .
    from Some have g: "getattr attrs key = v" by (simp add: getattr_def dict_get_def)
    show ?thesis
    proof (cases v)
      case (PObj c a)
      from "2.IH"(1)[OF g[unfolded PObj]] wv PObj
      have "well_formed_items (AsDict_loop (map fst (param_defaults c)) a)" by simp
      moreover have "distinct (map fst (AsDict_loop (map fst (param_defaults c)) a))"
        by (rule distinct_AsDict_loop) (rule distinct_param_defaults)
      ultimately show ?thesis using rest g PObj by simp
    qed (use rest g wv in auto)
  qed
qed

lemma well_formed_items_AsDict: "well_formed_items attrs \<Longrightarrow> well_formed_items (AsDict cls attrs)"
  unfolding AsDict_def by (rule well_formed_items_AsDict_loop)

lemma map_of_distinct_self:
  "distinct (map fst d) \<Longrightarrow> \<forall>kv\<in>set d. map_of d (fst kv) = Some (snd kv)"
  by auto

lemma py_eq_refl_aux:
  "a = b \<longrightarrow> well_formed a \<longrightarrow> py_eq a b = Inr True"
  "xs = ys \<longrightarrow> well_formed_list xs \<longrightarrow> list_eq xs ys = Inr True"
  "well_formed_items d \<longrightarrow> (\<forall>kv\<in>set d. map_of d2 (fst kv) = Some (snd kv))
     \<longrightarrow> dict_eq d d2 = Inr True"
proof (induction a b and xs ys and d d2 rule: py_eq_list_eq_dict_eq.induct)
  case (1 a b)
  show ?case
  proof (intro impI)
    assume ab: "a = b" and wf: "well_formed a"
    show "py_eq a b = Inr True"
    proof (cases a)
      case (PList xs)
      from wf PList have w: "well_formed_list xs" by simp
      have "xs = xs \<longrightarrow> well_formed_list xs \<longrightarrow> list_eq xs xs = Inr True"
        by (rule "1.IH"(1)[of a b xs xs]) (use ab PList in simp_all)
      with w have "list_eq xs xs = Inr True" by simp
      then have "py_eq (PList xs) (PList xs) = Inr True" by (simp add: py_eq_PList)
      with ab PList show ?thesis by simp
    next
      case (PDict d)
      from wf PDict have w: "distinct (map fst d)" "well_formed_items d" by simp_all
      have "well_formed_items d \<longrightarrow> (\<forall>kv\<in>set d. map_of d (fst kv) = Some (snd kv))
              \<longrightarrow> dict_eq d d = Inr True"
        by (rule "1.IH"(2)[of a b d d]) (use ab PDict in simp_all)
      with w map_of_distinct_self[OF w(1)] have "dict_eq d d = Inr True" by blast
      then have "py_eq (PDict d) (PDict d) = Inr True" by (simp add: py_eq_PDict)
      with ab PDict show ?thesis by simp
    next
      case (PObj c x)
      from wf PObj have w: "well_formed_items (AsDict c x)"
        by (simp add: well_formed_items_AsDict)
      have "well_formed_items (AsDict c x)
              \<longrightarrow> (\<forall>kv\<in>set (AsDict c x). map_of (AsDict c x) (fst kv) = Some (snd kv))
              \<longrightarrow> dict_eq (AsDict c x) (AsDict c x) = Inr True"
        by (rule "1.IH"(3)[of a b c x c x]) (use ab PObj in simp_all)
      with w map_of_distinct_self[OF distinct_AsDict, of c x]
      have "dict_eq (AsDict c x) (AsDict c x) = Inr True" by blast
      then have "py_eq (PObj c x) (PObj c x) = Inr True" by (simp add: py_eq_PObj)
      with ab PObj show ?thesis by simp
    qed (use ab in \<open>simp_all add: py_eq_scalar\<close>)
  qed
next
  case (2 ys)
  then show ?case by simp
next
  case (3 x xs)
  then show ?case by simp
next
  case (4 x xs y ys)
  show ?case
  proof (intro impI)
    assume e: "x # xs = y # ys" and wf: "well_formed_list (x # xs)"
    from "4.IH"(1) e wf have p: "py_eq x y = Inr True" by simp
    from "4.IH"(2)[OF p] e wf have "list_eq xs ys = Inr True" by simp
    with p show "list_eq (x # xs) (y # ys) = Inr True" by simp
  qed
next
  case (5 d2)
  then show ?case by simp
next
  case (6 kv d d2)
  show ?case
  proof (intro impI)
    assume wf: "well_formed_items (kv # d)"
      and sub: "\<forall>kv\<in>set (kv # d). map_of d2 (fst kv) = Some (snd kv)"
    from sub have m: "map_of d2 (fst kv) = Some (snd kv)" by simp
    from "6.IH"(1)[OF m] wf have p: "py_eq (snd kv) (snd kv) = Inr True" by simp
    from "6.IH"(2)[OF m p] wf sub have "dict_eq d d2 = Inr True" by simp
    with m p show "dict_eq (kv # d) d2 = Inr True" by simp
  qed
qed

lemma py_eq_refl: "well_formed a \<Longrightarrow> py_eq a a = Inr True"
  using py_eq_refl_aux(1)[of a a] by simp

lemma AsDict_cong:
  assumes "\<forall>k\<in>set (field_names cls). entry (getattr a k) = entry (getattr a' k)"
  shows "AsDict cls a = AsDict cls a'"
  using assms unfolding AsDict_def AsDict_loop_entries field_names_def
  by (auto intro!: arg_cong[where f = concat])

lemma entry_falsy: "\<not> truthy v \<Longrightarrow> entry v = None"
  by (cases v) (simp_all add: entry_def)

subsection \<open>Claims\<close>

text \<open>
  The round trip does not reproduce every field that was supplied with a value other than
  its default. \<open>Category(size=0)\<close> holds \<open>size = 0\<close>, and \<open>AsDict\<close> leaves the field out,
  as it leaves out every field whose value is falsy. \<open>UserStatus(connections=['following'])\<close>
  was given no field at all, and \<open>AsDict\<close> reports \<open>following\<close>.
\<close>

theorem AsDict_new_omits_and_adds:
  "new Category [(''size'', PInt 0)]
     = Inr (PObj Category [(''name'', PNone), (''slug'', PNone), (''size'', PInt 0)])
   \<and> AsDict Category [(''name'', PNone), (''slug'', PNone), (''size'', PInt 0)] = []
   \<and> new UserStatus [(''connections'', PList [PStr ''following''])]
     = Inr (PObj UserStatus
         [(''blocking'', PBool False), (''followed_by'', PBool False),
          (''following'', PBool True), (''following_received'', PBool False),
          (''following_requested'', PBool False), (''id'', PNone), (''id_str'', PNone),
          (''muting'', PBool False), (''name'', PNone), (''screen_name'', PNone)])
   \<and> AsDict UserStatus
         [(''blocking'', PBool False), (''followed_by'', PBool False),
          (''following'', PBool True), (''following_received'', PBool False),
          (''following_requested'', PBool False), (''id'', PNone), (''id_str'', PNone),
          (''muting'', PBool False), (''name'', PNone), (''screen_name'', PNone)]
     = [(''following'', PBool True)]"
  by (simp add: has_key_def dict_get_def getattr_def AsDict_def connections_def
      py_eq_scalar)

text \<open>
  C4, amended. Let \<open>kwargs\<close> have no key \<open>self\<close>, and for \<open>List\<close> no key \<open>user\<close>, for
  \<open>UserStatus\<close> no key \<open>connections\<close>. Then the constructor returns an instance, and so
  does the class method \<open>NewFromJsonDict\<close> on the same mapping, for every class but
  \<open>Status\<close>, which has a \<open>NewFromJsonDict\<close> of its own. \<open>AsDict\<close> of that instance has exactly the
  declared fields that were supplied with a truthy value or with an instance of a model,
  an instance converted by its own \<open>AsDict\<close>; a field supplied with a falsy value is left
  out like a field that was not supplied, and a key that is not a declared field is
  ignored. Hence, when every key supplied is a declared field and every value is truthy
  and not an instance, \<open>AsDict\<close> is the mapping that was supplied.
\<close>

theorem AsDict_new_round_trip:
  assumes "\<not> has_key kwargs ''self''"
    and "cls = List \<longrightarrow> \<not> has_key kwargs ''user''"
    and "cls = UserStatus \<longrightarrow> \<not> has_key kwargs ''connections''"
  shows "new cls kwargs = Inr (PObj cls (init_loop (param_defaults cls) kwargs []))
    \<and> (cls \<noteq> Status \<longrightarrow> NewFromJsonDict cls (PDict kwargs) [] = new cls kwargs)
    \<and> map_of (AsDict cls (init_loop (param_defaults cls) kwargs [])) k =
         (if k \<in> set (field_names cls)
          then (case map_of kwargs k of None \<Rightarrow> None | Some v \<Rightarrow> entry v)
          else None)
    \<and> (list_all (\<lambda>kv. fst kv \<in> set (field_names cls) \<and> truthy (snd kv)
                         \<and> \<not> is_instance (snd kv)) kwargs
         \<longrightarrow> map_of (AsDict cls (init_loop (param_defaults cls) kwargs [])) = map_of kwargs)"
proof -
  let ?attrs = "init_loop (param_defaults cls) kwargs []"
  have n: "new cls kwargs = Inr (PObj cls ?attrs)"
    using assms by simp
  have f: "NewFromJsonDict cls (PDict kwargs) [] = new cls kwargs"
    by (simp add: has_key_def)
  have m: "map_of (AsDict cls ?attrs) k' =
         (if k' \<in> set (field_names cls)
          then (case map_of kwargs k' of None \<Rightarrow> None | Some v \<Rightarrow> entry v)
          else None)" for k'
    by (simp add: map_of_AsDict entry_getattr_init_loop)
  have r: "map_of (AsDict cls ?attrs) = map_of kwargs"
    if a: "list_all (\<lambda>kv. fst kv \<in> set (field_names cls) \<and> truthy (snd kv)
                         \<and> \<not> is_instance (snd kv)) kwargs"
  proof
    fix k'
    show "map_of (AsDict cls ?attrs) k' = map_of kwargs k'"
    proof (cases "map_of kwargs k'")
      case None
      then show ?thesis by (simp add: m)
    next
      case (Some v)
      from map_of_SomeD[OF Some] a
      have "k' \<in> set (field_names cls)" "truthy v" "\<not> is_instance v"
        by (auto simp: list_all_iff)
      with Some show ?thesis by (simp add: m entry_plain)
    qed
  qed
  from n f m[of k] r show ?thesis by blast
qed

theorem AsDict_new_round_trip_witness:
  "new Category [(''name'', PStr ''news''), (''size'', PInt 3), (''rank'', PInt 1)]
     = Inr (PObj Category
         (init_loop (param_defaults Category)
            [(''name'', PStr ''news''), (''size'', PInt 3), (''rank'', PInt 1)] []))
   \<and> map_of (AsDict Category
         (init_loop (param_defaults Category)
            [(''name'', PStr ''news''), (''size'', PInt 3), (''rank'', PInt 1)] [])) ''size''
       = Some (PInt 3)
   \<and> map_of (AsDict Category
         (init_loop (param_defaults Category)
            [(''name'', PStr ''news''), (''size'', PInt 3), (''rank'', PInt 1)] [])) ''rank''
       = None
   \<and> map_of (AsDict User
         (init_loop (param_defaults User) [(''id'', PInt 7), (''name'', PStr ''ann'')] []))
       = map_of [(''id'', PInt 7), (''name'', PStr ''ann'')]
   \<and> NewFromJsonDict User (PDict [(''id'', PInt 7), (''name'', PStr ''ann'')]) []
       = Inr (PObj User
           (init_loop (param_defaults User) [(''id'', PInt 7), (''name'', PStr ''ann'')] []))"
proof -
  let ?kw = "[(''name'', PStr ''news''), (''size'', PInt 3), (''rank'', PInt 1)]"
  let ?u = "[(''id'', PInt 7), (''name'', PStr ''ann'')]"
  have c: "\<not> has_key ?kw ''self''" "Category = List \<longrightarrow> \<not> has_key ?kw ''user''"
    "Category = UserStatus \<longrightarrow> \<not> has_key ?kw ''connections''"
    by (simp_all add: has_key_def)
  have u: "\<not> has_key ?u ''self''" "User = List \<longrightarrow> \<not> has_key ?u ''user''"
    "User = UserStatus \<longrightarrow> \<not> has_key ?u ''connections''"
    by (simp_all add: has_key_def)
  have all: "list_all (\<lambda>kv. fst kv \<in> set (field_names User) \<and> truthy (snd kv)
                \<and> \<not> is_instance (snd kv)) ?u"
    by (simp add: field_names_def)
  from AsDict_new_round_trip[OF c, of "''size''"]
  have 1: "new Category ?kw = Inr (PObj Category (init_loop (param_defaults Category) ?kw []))"
    and 2: "map_of (AsDict Category (init_loop (param_defaults Category) ?kw [])) ''size''
              = Some (PInt 3)"
    by (simp_all add: field_names_def entry_def del: new.simps init_loop.simps)
  from AsDict_new_round_trip[OF c, of "''rank''"]
  have 3: "map_of (AsDict Category (init_loop (param_defaults Category) ?kw [])) ''rank'' = None"
    by (simp add: field_names_def del: new.simps init_loop.simps)
  from AsDict_new_round_trip[OF u, of "''id''"] all
  have 4: "map_of (AsDict User (init_loop (param_defaults User) ?u [])) = map_of ?u"
    by blast
  from AsDict_new_round_trip[OF u, of "''id''"]
  have 5: "NewFromJsonDict User (PDict ?u) []
             = Inr (PObj User (init_loop (param_defaults User) ?u []))"
    by (simp del: new.simps NewFromJsonDict.simps init_loop.simps)
  from 1 2 3 4 5 show ?thesis by blast
qed

text \<open>
  C10. \<open>__eq__\<close> against a falsy value returns that value (\<open>None\<close> for \<open>None\<close>, not
  \<open>False\<close>) and raises nothing; \<open>__ne__\<close> is then \<open>True\<close>. Two instances of the same
  class whose attributes agree on every declared field, except where both values are
  falsy, have the same \<open>AsDict\<close> and compare equal. (The attributes are well formed: the
  keys of every dictionary among them are distinct.)
\<close>

theorem model_eq_falsy_values:
  "(\<not> truthy v \<longrightarrow> model_eq cls a v = Inr v \<and> model_ne cls a v = Inr (PBool True))
   \<and> (well_formed_items a
        \<and> (\<forall>k\<in>set (field_names cls).
              getattr a k = getattr a' k
              \<or> (\<not> truthy (getattr a k) \<and> \<not> truthy (getattr a' k)))
        \<longrightarrow> AsDict cls a = AsDict cls a'
            \<and> model_eq cls a (PObj cls a') = Inr (PBool True)
            \<and> model_ne cls a (PObj cls a') = Inr (PBool False))"
proof (intro conjI impI)
  assume "\<not> truthy v"
  then show "model_eq cls a v = Inr v" "model_ne cls a v = Inr (PBool True)"
    by (simp_all add: model_eq_def model_ne_def)
next
  assume h: "well_formed_items a
        \<and> (\<forall>k\<in>set (field_names cls).
              getattr a k = getattr a' k
              \<or> (\<not> truthy (getattr a k) \<and> \<not> truthy (getattr a' k)))"
  have "\<forall>k\<in>set (field_names cls). entry (getattr a k) = entry (getattr a' k)"
    using h by (auto simp: entry_falsy)
  then have d: "AsDict cls a = AsDict cls a'" by (rule AsDict_cong)
  from h have "well_formed (PDict (AsDict cls a))"
    by (simp add: distinct_AsDict well_formed_items_AsDict)
  then have "py_eq (PDict (AsDict cls a)) (PDict (AsDict cls a)) = Inr True"
    by (rule py_eq_refl)
  with d have e: "model_eq cls a (PObj cls a') = Inr (PBool True)"
    by (simp add: model_eq_def)
  from d show "AsDict cls a = AsDict cls a'" .
  from e show "model_eq cls a (PObj cls a') = Inr (PBool True)" .
  from e show "model_ne cls a (PObj cls a') = Inr (PBool False)"
    by (simp add: model_ne_def)
qed

theorem model_eq_falsy_values_witness:
  "model_eq Category [(''name'', PStr ''news''), (''size'', PNone)] PNone = Inr PNone
   \<and> model_eq Category [(''name'', PStr ''news''), (''size'', PNone)]
        (PObj Category [(''size'', PInt 0), (''name'', PStr ''news''), (''slug'', PStr [])])
       = Inr (PBool True)
   \<and> getattr [(''name'', PStr ''news''), (''size'', PNone)] ''size''
       \<noteq> getattr [(''size'', PInt 0), (''name'', PStr ''news''), (''slug'', PStr [])] ''size''"
proof -
  let ?a = "[(''name'', PStr ''news''), (''size'', PNone)]"
  let ?b = "[(''size'', PInt 0), (''name'', PStr ''news''), (''slug'', PStr [])]"
  note t = model_eq_falsy_values[of PNone Category ?a ?b]
  have 1: "model_eq Category ?a PNone = Inr PNone"
    using t[THEN conjunct1] by simp
  have h: "well_formed_items ?a
        \<and> (\<forall>k\<in>set (field_names Category).
              getattr ?a k = getattr ?b k
              \<or> (\<not> truthy (getattr ?a k) \<and> \<not> truthy (getattr ?b k)))"
    by (simp add: field_names_def getattr_def dict_get_def)
  from t[THEN conjunct2, rule_format, OF h]
  have 2: "model_eq Category ?a (PObj Category ?b) = Inr (PBool True)" by blast
  have 3: "getattr ?a ''size'' \<noteq> getattr ?b ''size''"
    by (simp add: getattr_def dict_get_def)
  from 1 2 3 show ?thesis by blast
qed


subsection \<open>Equality and serialization\<close>

lemma is_scalar_getattr: "flat a \<Longrightarrow> is_scalar (getattr a k)"
  by (auto simp: flat_def getattr_def dict_get_def list_all_iff split: option.splits
      dest!: map_of_SomeD)

lemma entry_scalar: "is_scalar v \<Longrightarrow> entry v = (if truthy v then Some v else None)"
  by (cases v) (simp_all add: entry_def)

lemma flat_AsDict_loop: "flat a \<Longrightarrow> flat (AsDict_loop keys a)"
proof (induction keys)
  case Nil
  then show ?case by (simp add: flat_def)
next
  case (Cons key keys)
  from is_scalar_getattr[OF Cons.prems, of key] Cons show ?case
    by (cases "getattr a key") (simp_all add: flat_def)
qed

lemma flat_AsDict: "flat a \<Longrightarrow> flat (AsDict cls a)"
  unfolding AsDict_def by (rule flat_AsDict_loop)

lemma dict_eq_flat:
  "flat d \<Longrightarrow> flat d2 \<Longrightarrow>
     dict_eq d d2 =
       Inr (list_all (\<lambda>kv. case map_of d2 (fst kv) of None \<Rightarrow> False
                            | Some w \<Rightarrow> scalar_eq (snd kv) w) d)"
proof (induction d)
  case Nil
  then show ?case by simp
next
  case (Cons kv d)
  from Cons.prems(1) have s: "is_scalar (snd kv)" and f: "flat d" by (simp_all add: flat_def)
  show ?case
  proof (cases "map_of d2 (fst kv)")
    case None
    then show ?thesis by simp
  next
    case (Some w)
    from map_of_SomeD[OF Some] Cons.prems(2) have "is_scalar w"
      by (auto simp: flat_def list_all_iff)
    with s Some Cons.IH[OF f Cons.prems(2)] show ?thesis by (simp add: py_eq_scalar)
  qed
qed

lemma dict_cmp_iff:
  assumes D: "distinct (map fst D)" and D': "distinct (map fst D')"
  shows "(length D = length D'
          \<and> list_all (\<lambda>kv. case map_of D' (fst kv) of None \<Rightarrow> False
                              | Some w \<Rightarrow> R (snd kv) w) D)
         \<longleftrightarrow> (\<forall>k. rel_option R (map_of D k) (map_of D' k))"
proof
  assume l: "length D = length D'
          \<and> list_all (\<lambda>kv. case map_of D' (fst kv) of None \<Rightarrow> False
                              | Some w \<Rightarrow> R (snd kv) w) D"
  have each: "\<exists>w. map_of D' k = Some w \<and> R v w" if "(k, v) \<in> set D" for k v
    using l that by (auto simp: list_all_iff split: option.splits)
  have sub: "fst ` set D \<subseteq> fst ` set D'"
  proof
    fix k assume "k \<in> fst ` set D"
    then obtain v where "(k, v) \<in> set D" by auto
    from each[OF this] have "map_of D' k \<noteq> None" by auto
    then show "k \<in> fst ` set D'" by (simp add: map_of_eq_None_iff)
  qed
  have "card (fst ` set D) = card (fst ` set D')"
    using distinct_card[OF D] distinct_card[OF D'] l by simp
  with sub have eq: "fst ` set D = fst ` set D'"
    by (intro card_subset_eq) simp_all
  show "\<forall>k. rel_option R (map_of D k) (map_of D' k)"
  proof
    fix k
    show "rel_option R (map_of D k) (map_of D' k)"
    proof (cases "map_of D k")
      case None
      then have "k \<notin> fst ` set D" by (simp add: map_of_eq_None_iff)
      with eq have "map_of D' k = None" by (simp add: map_of_eq_None_iff)
      with None show ?thesis by simp
    next
      case (Some v)
      from each[OF map_of_SomeD[OF Some]] Some show ?thesis by auto
    qed
  qed
next
  assume r: "\<forall>k. rel_option R (map_of D k) (map_of D' k)"
  have dom: "map_of D k = None \<longleftrightarrow> map_of D' k = None" for k
    using r[rule_format, of k] by (cases "map_of D k"; cases "map_of D' k") simp_all
  have "fst ` set D = fst ` set D'"
  proof (rule set_eqI)
    fix k
    show "k \<in> fst ` set D \<longleftrightarrow> k \<in> fst ` set D'"
      using dom[of k] by (simp add: map_of_eq_None_iff)
  qed
  with distinct_card[OF D] distinct_card[OF D'] have len: "length D = length D'" by simp
  have "case map_of D' (fst kv) of None \<Rightarrow> False | Some w \<Rightarrow> R (snd kv) w"
    if "kv \<in> set D" for kv
  proof -
    from that map_of_distinct_self[OF D] have "map_of D (fst kv) = Some (snd kv)" by blast
    with r[rule_format, of "fst kv"] show ?thesis
      by (cases "map_of D' (fst kv)") simp_all
  qed
  with len show "length D = length D'
          \<and> list_all (\<lambda>kv. case map_of D' (fst kv) of None \<Rightarrow> False
                              | Some w \<Rightarrow> R (snd kv) w) D"
    by (simp add: list_all_iff)
qed

lemma alist_by_keys:
  "distinct (map fst l) \<Longrightarrow> l = map (\<lambda>k. (k, the (map_of l k))) (map fst l)"
proof (induction l)
  case Nil
  then show ?case by simp
next
  case (Cons kv l)
  from Cons.prems have d: "distinct (map fst l)" and n: "fst kv \<notin> set (map fst l)"
    by simp_all
  have "map_of (kv # l) k = map_of l k" if "k \<in> set (map fst l)" for k
  proof -
    from that n have "k \<noteq> fst kv" by blast
    then show ?thesis by (cases kv) simp
  qed
  then have "map (\<lambda>k. (k, the (map_of (kv # l) k))) (map fst l)
          = map (\<lambda>k. (k, the (map_of l k))) (map fst l)"
    by (intro map_cong) simp_all
  with Cons.IH[OF d] show ?case by (cases kv) simp
qed

lemma sort_key_fst_unique:
  assumes "distinct (map fst xs)" and "distinct (map fst ys)" and "map_of xs = map_of ys"
  shows "sort_key fst xs = sort_key fst ys"
proof -
  let ?S = "sort_key fst xs" and ?T = "sort_key fst ys"
  from assms have s: "set xs = set ys" by (simp add: map_of_inject_set)
  have dS: "distinct (map fst ?S)" using assms(1) by (simp add: distinct_map)
  have dT: "distinct (map fst ?T)" using assms(2) by (simp add: distinct_map)
  have k: "map fst ?S = map fst ?T"
    by (rule sorted_distinct_set_unique) (use dS dT s in \<open>simp_all add: sorted_sort_key\<close>)
  have m: "map_of ?S = map_of ?T"
    using dS dT s by (simp add: map_of_inject_set)
  have "?S = map (\<lambda>k. (k, the (map_of ?S k))) (map fst ?S)" by (rule alist_by_keys[OF dS])
  also have "\<dots> = map (\<lambda>k. (k, the (map_of ?T k))) (map fst ?T)" by (simp only: k m)
  also have "\<dots> = ?T" by (rule alist_by_keys[OF dT, symmetric])
  finally show ?thesis .
qed

lemma dumps_items_flat: "flat d \<Longrightarrow> \<exists>ss. dumps_items d = Inr ss"
proof (induction d)
  case Nil
  then show ?case by simp
next
  case (Cons kv d)
  from Cons.prems have s: "is_scalar (snd kv)" and f: "flat d" by (simp_all add: flat_def)
  from s have "\<exists>t. json_dumps (snd kv) = Inr t" by (cases "snd kv") simp_all
  with Cons.IH[OF f] show ?case by auto
qed

lemma flat_sort_key: "flat (sort_key fst d) = flat d"
  by (simp add: flat_def list_all_iff)

text \<open>
  \<open>__eq__\<close> is not the equality of the field values. An instance that holds \<open>size = 0\<close>
  equals one that holds \<open>size = None\<close>; and on two instances that hold lists \<open>__eq__\<close> can
  raise, here \<open>AttributeError\<close> from comparing an instance in one list with the number in
  the other.
\<close>

theorem model_eq_not_structural:
  "model_eq Category [(''name'', PNone), (''slug'', PNone), (''size'', PInt 0)]
       (PObj Category [(''name'', PNone), (''slug'', PNone), (''size'', PNone)])
     = Inr (PBool True)
   \<and> getattr [(''name'', PNone), (''slug'', PNone), (''size'', PInt 0)] ''size'' = PInt 0
   \<and> getattr [(''name'', PNone), (''slug'', PNone), (''size'', PNone)] ''size'' = PNone
   \<and> model_eq Category [(''name'', PList [PObj Category []])]
       (PObj Category [(''name'', PList [PInt 1])])
     = Inl AttributeError"
  by (simp add: model_eq_def AsDict_def getattr_def dict_get_def py_eq.simps)

text \<open>
  C5, amended. On two instances \<open>__eq__\<close> is \<open>==\<close> on their \<open>AsDict\<close> dictionaries: it
  returns a Boolean or raises what that comparison raises. When the attributes of both
  are scalars it returns, and it is \<open>True\<close> exactly when the two \<open>AsDict\<close> dictionaries
  have the same keys with equal values, where \<open>AsDict\<close> has a declared field exactly
  when its value is truthy, and Booleans equal the integers 0 and 1. \<open>__ne__\<close> is the
  negation of the truth value of what \<open>__eq__\<close> returns. \<open>AsJsonString\<close> is the JSON text of
  the \<open>AsDict\<close> dictionary with the keys in sorted order; it is the same text for two
  instances whose \<open>AsDict\<close> dictionaries are the same mapping, in whatever order their
  classes declare the fields, and it is a text (no exception) when the attributes are
  scalars.
\<close>

theorem model_eq_compares_AsDict:
  "model_eq c a (PObj c' a') =
       (case py_eq (PDict (AsDict c a)) (PDict (AsDict c' a')) of
          Inl e \<Rightarrow> Inl e
        | Inr t \<Rightarrow> Inr (PBool t))
   \<and> (flat a \<and> flat a' \<longrightarrow>
        model_eq c a (PObj c' a') =
          Inr (PBool (\<forall>k. rel_option scalar_eq (map_of (AsDict c a) k)
                                                 (map_of (AsDict c' a') k))))
   \<and> (flat a \<longrightarrow>
        map_of (AsDict c a) k =
          (if k \<in> set (field_names c) \<and> truthy (getattr a k) then Some (getattr a k)
           else None))
   \<and> model_ne c a other =
       (case model_eq c a other of Inl e \<Rightarrow> Inl e | Inr v \<Rightarrow> Inr (PBool (\<not> truthy v)))
   \<and> AsJsonString c a = json_dumps (PDict (AsDict c a))
   \<and> (map_of (AsDict c a) = map_of (AsDict c' a') \<longrightarrow> AsJsonString c a = AsJsonString c' a')
   \<and> (flat a \<longrightarrow> (\<exists>s. AsJsonString c a = Inr s))"
proof (intro conjI impI)
  show "model_eq c a (PObj c' a') =
       (case py_eq (PDict (AsDict c a)) (PDict (AsDict c' a')) of
          Inl e \<Rightarrow> Inl e
        | Inr t \<Rightarrow> Inr (PBool t))"
    by (simp add: model_eq_def)
next
  assume f: "flat a \<and> flat a'"
  let ?D = "AsDict c a" and ?D' = "AsDict c' a'"
  from f have fl: "flat ?D" "flat ?D'" by (simp_all add: flat_AsDict)
  have "py_eq (PDict ?D) (PDict ?D') =
          Inr (length ?D = length ?D'
               \<and> list_all (\<lambda>kv. case map_of ?D' (fst kv) of None \<Rightarrow> False
                                   | Some w \<Rightarrow> scalar_eq (snd kv) w) ?D)"
    by (simp add: py_eq_PDict dict_eq_flat[OF fl])
  also have "\<dots> = Inr (\<forall>k. rel_option scalar_eq (map_of ?D k) (map_of ?D' k))"
    by (simp only: dict_cmp_iff[OF distinct_AsDict distinct_AsDict])
  finally show "model_eq c a (PObj c' a') =
          Inr (PBool (\<forall>k. rel_option scalar_eq (map_of ?D k) (map_of ?D' k)))"
    by (simp add: model_eq_def)
next
  assume "flat a"
  from is_scalar_getattr[OF this, of k]
  show "map_of (AsDict c a) k =
          (if k \<in> set (field_names c) \<and> truthy (getattr a k) then Some (getattr a k)
           else None)"
    by (simp add: map_of_AsDict entry_scalar)
next
  show "model_ne c a other =
       (case model_eq c a other of Inl e \<Rightarrow> Inl e | Inr v \<Rightarrow> Inr (PBool (\<not> truthy v)))"
    by (simp add: model_ne_def)
next
  show "AsJsonString c a = json_dumps (PDict (AsDict c a))"
    by (simp add: AsJsonString_def)
next
  assume "map_of (AsDict c a) = map_of (AsDict c' a')"
  from sort_key_fst_unique[OF distinct_AsDict distinct_AsDict this]
  show "AsJsonString c a = AsJsonString c' a'"
    by (simp add: AsJsonString_def)
next
  assume "flat a"
  then have "flat (sort_key fst (AsDict c a))" by (simp add: flat_sort_key flat_AsDict)
  from dumps_items_flat[OF this] show "\<exists>s. AsJsonString c a = Inr s"
    by (auto simp: AsJsonString_def)
qed

lemma AsDict_DirectMessage_example:
  "AsDict DirectMessage [(''id'', PInt 1), (''created_at'', PStr ''now'')]
     = [(''id'', PInt 1), (''created_at'', PStr ''now'')]"
  by (simp add: AsDict_def getattr_def dict_get_def)

lemma AsDict_Status_example:
  "AsDict Status [(''id'', PBool True), (''created_at'', PStr ''now'')]
     = [(''created_at'', PStr ''now''), (''id'', PBool True)]"
  by (simp add: AsDict_def getattr_def dict_get_def)

lemma AsJsonString_DirectMessage_example:
  \<open>AsJsonString DirectMessage [(''id'', PInt 1), (''created_at'', PStr ''now'')]
     = Inr ''{"created_at": "now", "id": 1}''\<close>
  by (simp add: AsJsonString_def AsDict_DirectMessage_example quote_def escape_char_def
      show_int_def)

theorem model_eq_compares_AsDict_witness:
  \<open>model_eq DirectMessage [(''id'', PInt 1), (''created_at'', PStr ''now'')]
       (PObj Status [(''id'', PBool True), (''created_at'', PStr ''now'')])
     = Inr (PBool True)
   \<and> (\<forall>k. rel_option scalar_eq
          (map_of (AsDict DirectMessage [(''id'', PInt 1), (''created_at'', PStr ''now'')]) k)
          (map_of (AsDict Status [(''id'', PBool True), (''created_at'', PStr ''now'')]) k))
   \<and> map_of (AsDict DirectMessage [(''id'', PInt 1), (''created_at'', PStr ''now'')]) ''id''
       = Some (PInt 1)
   \<and> AsJsonString DirectMessage [(''id'', PInt 1), (''created_at'', PStr ''now'')]
       = AsJsonString Status [(''id'', PInt 1), (''created_at'', PStr ''now'')]
   \<and> AsJsonString DirectMessage [(''id'', PInt 1), (''created_at'', PStr ''now'')]
       = Inr ''{"created_at": "now", "id": 1}''\<close>
proof -
  let ?a = "[(''id'', PInt 1), (''created_at'', PStr ''now'')]"
  let ?b = "[(''id'', PBool True), (''created_at'', PStr ''now'')]"
  have fa: "flat ?a" and fb: "flat ?b" by (simp_all add: flat_def)
  note t = model_eq_compares_AsDict
  have e: "model_eq DirectMessage ?a (PObj Status ?b) = Inr (PBool True)"
    by (simp add: model_eq_def AsDict_DirectMessage_example AsDict_Status_example
        py_eq_PDict py_eq_scalar)
  from t[of DirectMessage ?a Status ?b, THEN conjunct2, THEN conjunct1] fa fb e
  have 1: "\<forall>k. rel_option scalar_eq (map_of (AsDict DirectMessage ?a) k)
                                      (map_of (AsDict Status ?b) k)"
    by simp
  from t[of DirectMessage ?a _ _ "''id''", THEN conjunct2, THEN conjunct2, THEN conjunct1] fa
  have 2: "map_of (AsDict DirectMessage ?a) ''id'' = Some (PInt 1)"
    by (simp add: field_names_def getattr_def dict_get_def)
  have "map_of (AsDict DirectMessage ?a) = map_of (AsDict Status ?a)"
    by (rule ext) (simp add: AsDict_def getattr_def dict_get_def)
  with t[of DirectMessage ?a Status ?a, THEN conjunct2, THEN conjunct2, THEN conjunct2,
         THEN conjunct2, THEN conjunct2, THEN conjunct1]
  have 3: "AsJsonString DirectMessage ?a = AsJsonString Status ?a" by blast
  from e 1 2 3 AsJsonString_DirectMessage_example show ?thesis by blast
qed


end
